theory Spec2Isabelle
  imports Main
begin

section \<open>JavaScript values\<close>

text \<open>
  A response body is whatever \<^verbatim>\<open>JSON.parse\<close> returned, and the fields of an ad
  record are copied from it unchecked (the payload is typed \<^verbatim>\<open>any\<close>), so the
  values the program handles are modelled untyped.  An object is its list of own
  properties in property order, with distinct keys (\<open>map_of\<close> reads it).  Numbers are
  abstracted to integers: the program only tests them for zero, compares them and
  prints them.  \<open>JUndefined\<close> is the result of reading a property that is not there; it
  never occurs inside a parsed body.
\<close>

datatype jsval =
    JUndefined
  | JNull
  | JBool bool
  | JNum int
  | JStr string
  | JArr "jsval list"
  | JObj "(string \<times> jsval) list"

text \<open>
  The errors of this program: the TypeError of the language, and a rejection by the
  file system (\<^verbatim>\<open>mkdir\<close> or \<^verbatim>\<open>writeFile\<close>).
\<close>

datatype js_error = TypeError | FsError

text \<open>Truthiness, as tested by \<^verbatim>\<open>!x\<close>, \<^verbatim>\<open>x || y\<close> and \<^verbatim>\<open>Boolean(x)\<close>.\<close>

fun truthy :: "jsval \<Rightarrow> bool" where
  "truthy JUndefined = False"
| "truthy JNull = False"
| "truthy (JBool b) = b"
| "truthy (JNum i) = (i \<noteq> 0)"
| "truthy (JStr s) = (s \<noteq> [])"
| "truthy (JArr xs) = True"
| "truthy (JObj kvs) = True"

fun nullish :: "jsval \<Rightarrow> bool" where
  "nullish JUndefined = True"
| "nullish JNull = True"
| "nullish v = False"

text \<open>
  \<open>get v k\<close> is the read \<^verbatim>\<open>v.k\<close> on a value that is neither \<^verbatim>\<open>null\<close> nor
  \<^verbatim>\<open>undefined\<close>, for the property names this program reads (none of them is
  \<^verbatim>\<open>length\<close>, an index or an inherited method): an object yields its own property,
  every other value \<^verbatim>\<open>undefined\<close>.
\<close>

fun get :: "jsval \<Rightarrow> string \<Rightarrow> jsval" where
  "get (JObj kvs) k = (case map_of kvs k of Some v \<Rightarrow> v | None \<Rightarrow> JUndefined)"
| "get v k = JUndefined"

text \<open>The plain read \<^verbatim>\<open>v.k\<close>: a TypeError on \<^verbatim>\<open>null\<close> and \<^verbatim>\<open>undefined\<close>.\<close>

definition read_prop :: "jsval \<Rightarrow> string \<Rightarrow> js_error + jsval" where
  "read_prop v k = (if nullish v then Inl TypeError else Inr (get v k))"

text \<open>The optional read \<^verbatim>\<open>v?.k\<close>.\<close>

definition opt :: "jsval \<Rightarrow> string \<Rightarrow> jsval" where
  "opt v k = (if nullish v then JUndefined else get v k)"

text \<open>\<^verbatim>\<open>a || b\<close> for an operand \<open>b\<close> without effects.\<close>

definition js_or :: "jsval \<Rightarrow> jsval \<Rightarrow> jsval" where
  "js_or a b = (if truthy a then a else b)"

text \<open>
  What \<^verbatim>\<open>for (const x of v)\<close> iterates over: the elements of an array, the
  characters of a string; any other value is not iterable and the loop header raises
  a TypeError.
\<close>

fun iterate :: "jsval \<Rightarrow> js_error + jsval list" where
  "iterate (JArr xs) = Inr xs"
| "iterate (JStr s) = Inr (map (\<lambda>c. JStr [c]) s)"
| "iterate v = Inl TypeError"

subsection \<open>Decimal rendering\<close>

definition digit_char :: "nat \<Rightarrow> char" where
  "digit_char d = ''0123456789'' ! d"

fun show_nat :: "nat \<Rightarrow> string" where
  "show_nat n = (if n < 10 then [digit_char n] else show_nat (n div 10) @ [digit_char (n mod 10)])"

declare show_nat.simps [simp del]

text \<open>The own enumerable properties that an object spread \<^verbatim>\<open>{...v}\<close> copies.\<close>

fun spread :: "jsval \<Rightarrow> (string \<times> jsval) list" where
  "spread (JObj kvs) = kvs"
| "spread (JArr xs) = map (\<lambda>i. (show_nat i, xs ! i)) [0..<length xs]"
| "spread (JStr s) = map (\<lambda>i. (show_nat i, JStr [s ! i])) [0..<length s]"
| "spread v = []"

text \<open>Writing one property of an object literal: an existing key keeps its place.\<close>

fun obj_set :: "string \<Rightarrow> jsval \<Rightarrow> (string \<times> jsval) list \<Rightarrow> (string \<times> jsval) list" where
  "obj_set k v [] = [(k, v)]"
| "obj_set k v ((k', v') # kvs) =
     (if k' = k then (k, v) # kvs else (k', v') # obj_set k v kvs)"

section \<open>The clock\<close>

text \<open>
  \<^verbatim>\<open>Date.now()\<close> and \<^verbatim>\<open>new Date()\<close> read the system clock.  A run is given the
  readings it will see, \<open>clk k\<close> being the k-th reading in milliseconds, and threads the
  number of readings made so far.
\<close>

type_synonym clock = "nat \<Rightarrow> nat"

definition Date_now :: "clock \<Rightarrow> nat \<Rightarrow> nat \<times> nat" where
  "Date_now clk n = (clk n, Suc n)"

section \<open>Ad records\<close>

text \<open>
  The interface \<^verbatim>\<open>AdData\<close>.  The field \<^verbatim>\<open>id\<close> is named \<open>ad_id\<close> here (\<open>id\<close> is the
  identity function of HOL).  Every field may hold any value, \<^verbatim>\<open>undefined\<close> when it
  is absent; \<open>creative_bodies\<close> is an array in every record that extraction builds.  \<open>fetched_at\<close> holds the instant read from the clock;
  \<^verbatim>\<open>toISOString\<close> renders it, one string per instant.
\<close>

record AdData =
  ad_id :: jsval
  page_id :: jsval
  is_active :: jsval
  start_date :: jsval
  end_date :: jsval
  snapshot_url :: jsval
  creative_bodies :: jsval
  fetched_at :: nat
  raw_data :: jsval

text \<open>The template literal \<^verbatim>\<open>`unknown_${t}`\<close> for a clock reading \<open>t\<close>.\<close>

definition unknown_id :: "nat \<Rightarrow> jsval" where
  "unknown_id t = JStr (''unknown_'' @ show_nat t)"

section \<open>extractAdData\<close>

text \<open>
  Lines 84 to 99: the record built from one element of \<^verbatim>\<open>collated_results\<close>.  The
  first read, \<^verbatim>\<open>adResult.snapshot\<close>, is the one that can raise; the clock is read for
  the identity only when both identity fields are falsy, and once more for
  \<open>fetched_at\<close>.
\<close>

definition build_ad :: "clock \<Rightarrow> nat \<Rightarrow> jsval \<Rightarrow> js_error + (AdData \<times> nat)" where
  "build_ad clk n adResult =
     (case read_prop adResult ''snapshot'' of
        Inl e \<Rightarrow> Inl e
      | Inr s \<Rightarrow>
          (let snapshot = js_or s (JObj []);
               (i, n1) =
                  (if truthy (get adResult ''ad_archive_id'') then (get adResult ''ad_archive_id'', n)
                   else if truthy (get adResult ''id'') then (get adResult ''id'', n)
                   else (let (t, n') = Date_now clk n in (unknown_id t, n')));
               (now, n2) = Date_now clk n1
           in Inr (\<lparr> ad_id = i,
                     page_id = js_or (get adResult ''page_id'')
                                 (js_or (get snapshot ''page_id'') (JStr ''unknown_page'')),
                     is_active = (if get adResult ''is_active'' \<noteq> JUndefined
                                  then get adResult ''is_active'' else JBool True),
                     start_date = js_or (get adResult ''start_date'')
                                    (get adResult ''delivery_start_time''),
                     end_date = js_or (get adResult ''end_date'')
                                  (get adResult ''delivery_stop_time''),
                     snapshot_url = get adResult ''snapshot_url'',
                     creative_bodies = JArr (filter truthy [opt (get snapshot ''body'') ''text'']),
                     fetched_at = now,
                     raw_data = JObj (obj_set ''snapshot'' snapshot (spread adResult)) \<rparr>,
                   n2)))"

text \<open>
  Lines 81 to 105, the loop over one node's collated results; line 102 reads the clock
  only when the id is truthy.  The list \<open>ads\<close> lives
  outside the \<^verbatim>\<open>try\<close> block, so what was pushed before an error is kept: a loop
  returns the error, if one was raised, together with the list and the clock count.
\<close>

fun for_collated ::
  "clock \<Rightarrow> jsval list \<Rightarrow> AdData list \<times> nat \<Rightarrow> js_error option \<times> AdData list \<times> nat" where
  "for_collated clk [] (ads, n) = (None, ads, n)"
| "for_collated clk (adResult # rest) (ads, n) =
     (if \<not> truthy adResult then for_collated clk rest (ads, n)
      else
        (case build_ad clk n adResult of
           Inl e \<Rightarrow> (Some e, ads, n)
         | Inr (ad, n1) \<Rightarrow>
             (if truthy (ad_id ad) then
                (let (t, n2) = Date_now clk n1
                 in if ad_id ad \<noteq> unknown_id t
                    then for_collated clk rest (ads @ [ad], n2)
                    else for_collated clk rest (ads, n2))
              else for_collated clk rest (ads, n1))))"

text \<open>Lines 74 to 106, the loop over the edges.\<close>

fun for_edges ::
  "clock \<Rightarrow> jsval list \<Rightarrow> AdData list \<times> nat \<Rightarrow> js_error option \<times> AdData list \<times> nat" where
  "for_edges clk [] (ads, n) = (None, ads, n)"
| "for_edges clk (edge # rest) (ads, n) =
     (let node = opt edge ''node''
      in if \<not> truthy node then for_edges clk rest (ads, n)
         else
           (case read_prop node ''collated_results'' of
              Inl e \<Rightarrow> (Some e, ads, n)
            | Inr cr \<Rightarrow>
                (case iterate (js_or cr (JArr [])) of
                   Inl e \<Rightarrow> (Some e, ads, n)
                 | Inr collatedResults \<Rightarrow>
                     (case for_collated clk collatedResults (ads, n) of
                        (Some e, ads', n') \<Rightarrow> (Some e, ads', n')
                      | (None, ads', n') \<Rightarrow> for_edges clk rest (ads', n')))))"

text \<open>
  Lines 57 to 112.  The \<^verbatim>\<open>catch\<close> clause logs the error and falls through to
  \<^verbatim>\<open>return ads\<close>; the result is \<open>Inr\<close> of the records and the clock count, and \<open>Inl\<close>
  would be an error leaving the function.
\<close>

definition extractAdData :: "clock \<Rightarrow> nat \<Rightarrow> jsval \<Rightarrow> js_error + (AdData list \<times> nat)" where
  "extractAdData clk n response =
     (let data = opt response ''data''
      in if \<not> truthy data then Inr ([], n)
         else
           (let edges = opt (opt (opt data ''ad_library_main'') ''search_results_connection'') ''edges''
            in case edges of
                 JArr es \<Rightarrow>
                   (case for_edges clk es ([], n) of
                      (Some e, ads, n') \<Rightarrow> Inr (ads, n')
                    | (None, ads, n') \<Rightarrow> Inr (ads, n'))
               | _ \<Rightarrow> Inr ([], n)))"

section \<open>The session map\<close>

text \<open>
  A \<^verbatim>\<open>Map\<close> keeps its entries in insertion order; \<^verbatim>\<open>set\<close> on a key that is
  present replaces the value in place, and \<^verbatim>\<open>size\<close> is the number of entries.
  Keys are compared by value, which is what \<^verbatim>\<open>Map\<close> does for strings, numbers,
  booleans, \<^verbatim>\<open>null\<close> and \<^verbatim>\<open>undefined\<close>; it compares arrays and objects by
  reference, so the statements about the map are made for primitive keys (the interface
  declares \<^verbatim>\<open>id: string\<close>).
\<close>

type_synonym session = "(jsval \<times> AdData) list"

fun Map_set :: "jsval \<Rightarrow> AdData \<Rightarrow> session \<Rightarrow> session" where
  "Map_set k v [] = [(k, v)]"
| "Map_set k v ((k', v') # m) =
     (if k' = k then (k, v) # m else (k', v') # Map_set k v m)"

fun is_primitive :: "jsval \<Rightarrow> bool" where
  "is_primitive (JArr xs) = False"
| "is_primitive (JObj kvs) = False"
| "is_primitive v = True"

fun is_string :: "jsval \<Rightarrow> bool" where
  "is_string (JStr s) = True"
| "is_string v = False"

section \<open>Persistence\<close>

text \<open>
  The string that a template literal makes of a value.  A number is printed in full,
  as it is for the integers below \<^verbatim>\<open>1e21\<close> in size.  An object gives
  \<^verbatim>\<open>[object Object]\<close>; one that carries a property \<^verbatim>\<open>toString\<close> of its own
  would raise instead, a case left out (the interface declares \<^verbatim>\<open>id: string\<close>).
\<close>

definition show_int :: "int \<Rightarrow> string" where
  "show_int i = (if i < 0 then CHR ''-'' # show_nat (nat (- i)) else show_nat (nat i))"

fun join_with :: "string \<Rightarrow> string list \<Rightarrow> string" where
  "join_with sep [] = []"
| "join_with sep [x] = x"
| "join_with sep (x # y # ys) = x @ sep @ join_with sep (y # ys)"

fun to_string :: "jsval \<Rightarrow> string" where
  "to_string JUndefined = ''undefined''"
| "to_string JNull = ''null''"
| "to_string (JBool b) = (if b then ''true'' else ''false'')"
| "to_string (JNum i) = show_int i"
| "to_string (JStr s) = s"
| "to_string (JArr xs) = join_with '','' (map (\<lambda>x. if nullish x then [] else to_string x) xs)"
| "to_string (JObj kvs) = ''[object Object]''"

text \<open>
  The database directory: one file per ad, \<^verbatim>\<open>${id}.json\<close> in the directory named by
  \<open>page_id\<close>, and one \<^verbatim>\<open>_metadata.json\<close> per directory.  The two kinds of file are
  kept in two maps (no ad is taken to have the id \<^verbatim>\<open>_metadata\<close>), and a file is
  addressed by directory name and file name as they are written, two different pairs
  being taken for two different files.  A file holds the
  record written to it: \<^verbatim>\<open>JSON.parse\<close> of \<^verbatim>\<open>JSON.stringify\<close> of a record built
  from a parsed body has the same fields, an \<^verbatim>\<open>undefined\<close> field being left out on
  writing and read back as \<^verbatim>\<open>undefined\<close>.
\<close>

type_synonym store = "string \<times> string \<Rightarrow> AdData option"

record PageMetadata =
  meta_page_id :: jsval
  last_synced :: nat
  total_ads :: nat

type_synonym meta_store = "string \<Rightarrow> PageMetadata option"

text \<open>
  The file system decides whether \<^verbatim>\<open>mkdir\<close> and \<^verbatim>\<open>writeFile\<close> go through for a
  directory name and a file name; \<open>fs (dir, file)\<close> says so.  It refuses, for
  instance, a file name with a path separator whose directory is not there (an id such
  as \<^verbatim>\<open>a/b\<close>), or a name that is too long.
\<close>

type_synonym file_system = "string \<times> string \<Rightarrow> bool"

text \<open>
  Lines 21 to 27.  \<^verbatim>\<open>path.join\<close> raises a TypeError on an argument that is not a
  string; \<^verbatim>\<open>mkdir\<close> and \<^verbatim>\<open>writeFile\<close> reject when the file system refuses.
\<close>

definition saveAd :: "file_system \<Rightarrow> store \<Rightarrow> AdData \<Rightarrow> js_error + store" where
  "saveAd fs db ad =
     (case page_id ad of
        JStr dir \<Rightarrow>
          (if fs (dir, to_string (ad_id ad) @ ''.json'')
           then Inr (db((dir, to_string (ad_id ad) @ ''.json'') \<mapsto> ad))
           else Inl FsError)
      | _ \<Rightarrow> Inl TypeError)"

text \<open>The records whose save goes through.\<close>

definition savable :: "file_system \<Rightarrow> AdData \<Rightarrow> bool" where
  "savable fs ad =
     (case page_id ad of
        JStr dir \<Rightarrow> fs (dir, to_string (ad_id ad) @ ''.json'')
      | _ \<Rightarrow> False)"

text \<open>Lines 29 to 37: any failure to read gives \<^verbatim>\<open>null\<close>.\<close>

definition loadAd :: "store \<Rightarrow> string \<Rightarrow> jsval \<Rightarrow> AdData option" where
  "loadAd db pageId adId = db (pageId, to_string adId @ ''.json'')"

text \<open>Lines 39 to 45 and 47 to 55.\<close>

definition savePageMetadata ::
  "file_system \<Rightarrow> meta_store \<Rightarrow> PageMetadata \<Rightarrow> js_error + meta_store" where
  "savePageMetadata fs ms metadata =
     (case meta_page_id metadata of
        JStr dir \<Rightarrow>
          (if fs (dir, ''_metadata.json'') then Inr (ms(dir \<mapsto> metadata)) else Inl FsError)
      | _ \<Rightarrow> Inl TypeError)"

definition loadPageMetadata :: "meta_store \<Rightarrow> string \<Rightarrow> PageMetadata option" where
  "loadPageMetadata ms pageId = ms pageId"

section \<open>initialSync: the response handler\<close>

text \<open>
  The state that the handler of \<^verbatim>\<open>initialSync\<close> works on: the map
  \<^verbatim>\<open>capturedAds\<close> and the ad files.
\<close>

record capture_state =
  capturedAds :: session
  cap_files :: store

text \<open>
  The two tests on \<^verbatim>\<open>max\<close> (here \<open>max_ads\<close>), an optional count:
  \<^verbatim>\<open>!max || size < max\<close> at line 184 and \<^verbatim>\<open>max && size >= max\<close> at line 189.
  The number 0 is falsy.
\<close>

definition below_cap :: "nat option \<Rightarrow> nat \<Rightarrow> bool" where
  "below_cap max_ads sz = (case max_ads of None \<Rightarrow> True | Some m \<Rightarrow> m = 0 \<or> sz < m)"

definition cap_reached :: "nat option \<Rightarrow> nat \<Rightarrow> bool" where
  "cap_reached max_ads sz = (case max_ads of None \<Rightarrow> False | Some m \<Rightarrow> m \<noteq> 0 \<and> sz \<ge> m)"

text \<open>
  Lines 183 to 194.  An error raised by \<^verbatim>\<open>saveAd\<close> leaves the loop, after the record
  was put into the map; \<^verbatim>\<open>break\<close> leaves it without an error.
\<close>

fun capture_loop ::
  "file_system \<Rightarrow> nat option \<Rightarrow> AdData list \<Rightarrow> capture_state \<Rightarrow> js_error option \<times> capture_state" where
  "capture_loop fs max_ads [] st = (None, st)"
| "capture_loop fs max_ads (ad # rest) st =
     (if below_cap max_ads (length (capturedAds st)) then
        (let st1 = st\<lparr> capturedAds := Map_set (ad_id ad) ad (capturedAds st) \<rparr>
         in case saveAd fs (cap_files st1) ad of
              Inl e \<Rightarrow> (Some e, st1)
            | Inr db \<Rightarrow>
                (let st2 = st1\<lparr> cap_files := db \<rparr>
                 in if cap_reached max_ads (length (capturedAds st2)) then (None, st2)
                    else capture_loop fs max_ads rest st2))
      else capture_loop fs max_ads rest st)"

text \<open>
  Lines 178 to 198 for the records of one response whose body is \<open>json\<close>.  With no
  record, line 197 logs \<^verbatim>\<open>Object.keys(json)\<close>, which raises on \<^verbatim>\<open>null\<close>.
\<close>

definition capture_batch ::
  "file_system \<Rightarrow> nat option \<Rightarrow> jsval \<Rightarrow> AdData list \<Rightarrow> capture_state \<Rightarrow> js_error option \<times> capture_state" where
  "capture_batch fs max_ads json ads st =
     (if length ads > 0 then capture_loop fs max_ads ads st
      else if nullish json then (Some TypeError, st)
      else (None, st))"

text \<open>
  Lines 151 to 206, for a response that passes the tests on URL and status.  The body
  is \<open>None\<close> when \<^verbatim>\<open>JSON.parse\<close> rejects it.  The \<^verbatim>\<open>catch\<close> at line 200 logs an
  error and drops it.  Responses are handled one after the other.
\<close>

definition capture_response ::
  "clock \<Rightarrow> file_system \<Rightarrow> nat option \<Rightarrow> jsval option \<Rightarrow> capture_state \<times> nat \<Rightarrow> capture_state \<times> nat" where
  "capture_response clk fs max_ads body sn =
     (case body of
        None \<Rightarrow> sn
      | Some json \<Rightarrow>
          (case extractAdData clk (snd sn) json of
             Inl e \<Rightarrow> sn
           | Inr (ads, n') \<Rightarrow> (snd (capture_batch fs max_ads json ads (fst sn)), n')))"

fun capture_responses ::
  "clock \<Rightarrow> file_system \<Rightarrow> nat option \<Rightarrow> jsval option list \<Rightarrow> capture_state \<times> nat \<Rightarrow> capture_state \<times> nat" where
  "capture_responses clk fs max_ads [] sn = sn"
| "capture_responses clk fs max_ads (body # bodies) sn =
     capture_responses clk fs max_ads bodies (capture_response clk fs max_ads body sn)"

text \<open>The same on the lists of records that the responses gave, one list per response.\<close>

fun capture_batches :: "file_system \<Rightarrow> nat option \<Rightarrow> AdData list list \<Rightarrow> capture_state \<Rightarrow> capture_state" where
  "capture_batches fs max_ads [] st = st"
| "capture_batches fs max_ads (ads # batches) st =
     capture_batches fs max_ads batches (if length ads > 0 then snd (capture_loop fs max_ads ads st) else st)"

text \<open>The lists of records that extraction gives for the bodies of a run, one per response.\<close>

fun extracted :: "clock \<Rightarrow> jsval option list \<Rightarrow> nat \<Rightarrow> AdData list list" where
  "extracted clk [] n = []"
| "extracted clk (None # bodies) n = [] # extracted clk bodies n"
| "extracted clk (Some json # bodies) n =
     (case extractAdData clk n json of
        Inl e \<Rightarrow> [] # extracted clk bodies n
      | Inr (ads, n') \<Rightarrow> ads # extracted clk bodies n')"

text \<open>
  What the cap lets through, told from the records alone: of the records seen, in
  order, those that come while fewer than the cap of distinct ids have been let
  through.  They are a first part of the list; without a cap, or with the cap 0, they
  are the whole list.
\<close>

definition distinct_ids :: "AdData list \<Rightarrow> nat" where
  "distinct_ids ads = length (remdups (map (\<lambda>ad. ad_id ad) ads))"

fun seen_until_cap :: "nat option \<Rightarrow> AdData list \<Rightarrow> AdData list \<Rightarrow> AdData list" where
  "seen_until_cap max_ads acc [] = acc"
| "seen_until_cap max_ads acc (ad # ads) =
     (if below_cap max_ads (distinct_ids acc) then seen_until_cap max_ads (acc @ [ad]) ads
      else acc)"

text \<open>The last record with a given id in a list.\<close>

definition last_with_id :: "AdData list \<Rightarrow> jsval \<Rightarrow> AdData option" where
  "last_with_id ads k = find (\<lambda>ad. ad_id ad = k) (rev ads)"

text \<open>
  Two invariants of the handler: the keys of the map are distinct and at most \<open>N\<close>; the
  keys are distinct and the map holds, for every id, the last record of a list \<open>acc\<close>
  with that id.  And the values of \<^verbatim>\<open>max\<close> for which line 184 never refuses.
\<close>

definition capped_inv :: "nat \<Rightarrow> capture_state \<Rightarrow> bool" where
  "capped_inv N st = (distinct (map fst (capturedAds st)) \<and> length (capturedAds st) \<le> N)"

definition holds_last :: "session \<Rightarrow> AdData list \<Rightarrow> bool" where
  "holds_last m acc = (distinct (map fst m) \<and> (\<forall>k. map_of m k = last_with_id acc k))"

definition uncapped :: "nat option \<Rightarrow> bool" where
  "uncapped max_ads = (case max_ads of None \<Rightarrow> True | Some m \<Rightarrow> m = 0)"

section \<open>initialSync: the metadata\<close>

text \<open>
  Line 274: the distinct \<open>page_id\<close> values of the session, in order of first
  occurrence, as \<^verbatim>\<open>new Set\<close> keeps them.
\<close>

fun Set_of :: "jsval list \<Rightarrow> jsval list" where
  "Set_of [] = []"
| "Set_of (x # xs) = x # filter (\<lambda>y. y \<noteq> x) (Set_of xs)"

text \<open>Lines 275 to 282.  An error of \<^verbatim>\<open>savePageMetadata\<close> leaves \<^verbatim>\<open>initialSync\<close>.\<close>

fun save_metadata ::
  "clock \<Rightarrow> file_system \<Rightarrow> session \<Rightarrow> jsval list \<Rightarrow> meta_store \<times> nat \<Rightarrow> js_error option \<times> meta_store \<times> nat" where
  "save_metadata clk fs m [] (ms, n) = (None, ms, n)"
| "save_metadata clk fs m (pageId # pageIds) (ms, n) =
     (let pageAds = filter (\<lambda>ad. page_id ad = pageId) (map snd m);
          (now, n') = Date_now clk n
      in case savePageMetadata fs ms
                \<lparr> meta_page_id = pageId, last_synced = now, total_ads = length pageAds \<rparr> of
           Inl e \<Rightarrow> (Some e, ms, n')
         | Inr ms' \<Rightarrow> save_metadata clk fs m pageIds (ms', n'))"

text \<open>
  What a run leaves behind: the error that left the function, if any, the session map
  as it stood, the two kinds of file, and the clock count.
\<close>

record outcome =
  raised :: "js_error option"
  final_session :: session
  ad_files :: store
  meta_files :: meta_store
  clock_reads :: nat

text \<open>
  \<^verbatim>\<open>initialSync\<close>, lines 114 to 299, with the browser taken to work: the bodies are
  those of the responses that arrive while the page loads and scrolls, and the map
  starts empty.
\<close>

definition initialSync ::
  "clock \<Rightarrow> file_system \<Rightarrow> nat option \<Rightarrow> jsval option list \<Rightarrow> store \<Rightarrow> meta_store \<Rightarrow> nat \<Rightarrow> outcome" where
  "initialSync clk fs max_ads bodies db ms n =
     (let (st, n1) = capture_responses clk fs max_ads bodies
                       (\<lparr> capturedAds = [], cap_files = db \<rparr>, n);
          pageIds = Set_of (map (\<lambda>ad. page_id ad) (map snd (capturedAds st)));
          (e, ms', n2) = save_metadata clk fs (capturedAds st) pageIds (ms, n1)
      in \<lparr> raised = e, final_session = capturedAds st, ad_files = cap_files st,
           meta_files = ms', clock_reads = n2 \<rparr>)"

section \<open>JSON.stringify\<close>

definition hex_char :: "nat \<Rightarrow> char" where
  "hex_char d = ''0123456789abcdef'' ! d"

text \<open>
  The escapes of a quoted string: the quote (code 34), the backslash (92), the short
  forms for backspace, tab, newline, form feed and carriage return, and \<^verbatim>\<open>\u00XX\<close>
  for the other codes below 32.
\<close>

definition json_escape :: "char \<Rightarrow> string" where
  "json_escape c =
     (let n = (of_char c :: nat)
      in if n = 34 then [CHR 0x5C, CHR 0x22]
         else if n = 92 then [CHR 0x5C, CHR 0x5C]
         else if n = 8 then [CHR 0x5C, CHR ''b'']
         else if n = 9 then [CHR 0x5C, CHR ''t'']
         else if n = 10 then [CHR 0x5C, CHR ''n'']
         else if n = 12 then [CHR 0x5C, CHR ''f'']
         else if n = 13 then [CHR 0x5C, CHR ''r'']
         else if n < 32 then
           [CHR 0x5C, CHR ''u'', CHR ''0'', CHR ''0'', hex_char (n div 16), hex_char (n mod 16)]
         else [c])"

definition json_quote :: "string \<Rightarrow> string" where
  "json_quote s = CHR 0x22 # concat (map json_escape s) @ [CHR 0x22]"

text \<open>
  The text of a value inside an array or as a property value; \<^verbatim>\<open>undefined\<close> is
  \<^verbatim>\<open>null\<close> inside an array, and a property whose value is \<^verbatim>\<open>undefined\<close> is left
  out.
\<close>

fun json_text :: "jsval \<Rightarrow> string" where
  "json_text JUndefined = ''null''"
| "json_text JNull = ''null''"
| "json_text (JBool b) = (if b then ''true'' else ''false'')"
| "json_text (JNum i) = show_int i"
| "json_text (JStr s) = json_quote s"
| "json_text (JArr xs) = ''['' @ join_with '','' (map json_text xs) @ '']''"
| "json_text (JObj kvs) =
     ''{'' @ join_with '','' (map (\<lambda>kv. json_quote (fst kv) @ '':'' @ json_text (snd kv))
                                (filter (\<lambda>kv. snd kv \<noteq> JUndefined) kvs)) @ ''}''"

text \<open>\<^verbatim>\<open>JSON.stringify(v)\<close>, which is \<^verbatim>\<open>undefined\<close> (here \<open>None\<close>) for \<^verbatim>\<open>undefined\<close>.\<close>

definition JSON_stringify :: "jsval \<Rightarrow> string option" where
  "JSON_stringify v = (if v = JUndefined then None else Some (json_text v))"

section \<open>incrementalSync\<close>

text \<open>
  \<^verbatim>\<open>a !== b\<close> for a value \<open>a\<close> read from a file and a value \<open>b\<close> taken from the
  response: primitives are compared by value, and an array or object is never
  identical to one that was parsed elsewhere.
\<close>

definition strict_neq :: "jsval \<Rightarrow> jsval \<Rightarrow> bool" where
  "strict_neq a b = (\<not> (is_primitive a \<and> a = b))"

text \<open>The condition at lines 367 to 371.\<close>

definition new_or_updated :: "AdData option \<Rightarrow> AdData \<Rightarrow> bool" where
  "new_or_updated existingAd ad =
     (case existingAd of
        None \<Rightarrow> True
      | Some existing \<Rightarrow>
          strict_neq (is_active existing) (is_active ad) \<or>
          strict_neq (end_date existing) (end_date ad) \<or>
          strict_neq (start_date existing) (start_date ad) \<or>
          JSON_stringify (creative_bodies existing) \<noteq> JSON_stringify (creative_bodies ad))"

text \<open>
  The state of the handler of \<^verbatim>\<open>incrementalSync\<close>: the map \<^verbatim>\<open>updatedAds\<close>, the
  ad files, and what line 374 logs for every record saved: its id, and whether it was
  new (no file was read for it) or modified.
\<close>

record sync_state =
  updatedAds :: session
  sync_files :: store
  sync_log :: "(jsval \<times> bool) list"

text \<open>Lines 362 to 377.\<close>

fun sync_loop :: "file_system \<Rightarrow> string \<Rightarrow> AdData list \<Rightarrow> sync_state \<Rightarrow> js_error option \<times> sync_state" where
  "sync_loop fs pageId [] st = (None, st)"
| "sync_loop fs pageId (ad # rest) st =
     (if page_id ad = JStr pageId then
        (let existingAd = loadAd (sync_files st) pageId (ad_id ad)
         in if new_or_updated existingAd ad then
              (let st1 = st\<lparr> updatedAds := Map_set (ad_id ad) ad (updatedAds st) \<rparr>
               in case saveAd fs (sync_files st1) ad of
                    Inl e \<Rightarrow> (Some e, st1)
                  | Inr db \<Rightarrow>
                      sync_loop fs pageId rest
                        (st1\<lparr> sync_files := db,
                              sync_log := sync_log st1 @ [(ad_id ad, existingAd = None)] \<rparr>))
            else sync_loop fs pageId rest st)
      else sync_loop fs pageId rest st)"

text \<open>Lines 337 to 382; the \<^verbatim>\<open>catch\<close> at line 379 drops every error.\<close>

definition sync_response ::
  "clock \<Rightarrow> file_system \<Rightarrow> string \<Rightarrow> jsval option \<Rightarrow> sync_state \<times> nat \<Rightarrow> sync_state \<times> nat" where
  "sync_response clk fs pageId body sn =
     (case body of
        None \<Rightarrow> sn
      | Some json \<Rightarrow>
          (case extractAdData clk (snd sn) json of
             Inl e \<Rightarrow> sn
           | Inr (ads, n') \<Rightarrow> (snd (sync_loop fs pageId ads (fst sn)), n')))"

fun sync_responses ::
  "clock \<Rightarrow> file_system \<Rightarrow> string \<Rightarrow> jsval option list \<Rightarrow> sync_state \<times> nat \<Rightarrow> sync_state \<times> nat" where
  "sync_responses clk fs pageId [] sn = sn"
| "sync_responses clk fs pageId (body # bodies) sn =
     sync_responses clk fs pageId bodies (sync_response clk fs pageId body sn)"

text \<open>
  Lines 398 to 403: the metadata written at the end, from the metadata read at line
  308 and the map.
\<close>

definition updated_metadata :: "clock \<Rightarrow> nat \<Rightarrow> string \<Rightarrow> PageMetadata option \<Rightarrow> session \<Rightarrow> PageMetadata" where
  "updated_metadata clk n pageId metadata m =
     \<lparr> meta_page_id = JStr pageId,
       last_synced = fst (Date_now clk n),
       total_ads = (case metadata of None \<Rightarrow> 0 | Some md \<Rightarrow> total_ads md) + length m \<rparr>"

text \<open>How the handler went, with the state it reached.\<close>

record sync_outcome = outcome +
  updates :: "(jsval \<times> bool) list"

definition incrementalSync ::
  "clock \<Rightarrow> file_system \<Rightarrow> string \<Rightarrow> jsval option list \<Rightarrow> store \<Rightarrow> meta_store \<Rightarrow> nat \<Rightarrow> sync_outcome" where
  "incrementalSync clk fs pageId bodies db ms n =
     (let metadata = loadPageMetadata ms pageId;
          (st, n1) = sync_responses clk fs pageId bodies
                       (\<lparr> updatedAds = [], sync_files = db, sync_log = [] \<rparr>, n);
          written = updated_metadata clk n1 pageId metadata (updatedAds st)
      in case savePageMetadata fs ms written of
           Inl e \<Rightarrow> \<lparr> raised = Some e, final_session = updatedAds st, ad_files = sync_files st,
                      meta_files = ms, clock_reads = Suc n1, updates = sync_log st \<rparr>
         | Inr ms' \<Rightarrow> \<lparr> raised = None, final_session = updatedAds st, ad_files = sync_files st,
                        meta_files = ms', clock_reads = Suc n1, updates = sync_log st \<rparr>)"

text \<open>
  The tracked fields of a record, and the records whose tracked fields have the shapes
  that the interface declares: primitive values for \<open>is_active\<close> and the two dates
  (a boolean, a string, \<^verbatim>\<open>null\<close>, or \<^verbatim>\<open>undefined\<close> for an absent date), an array
  of strings for \<open>creative_bodies\<close>.
\<close>

fun all_strings :: "jsval list \<Rightarrow> bool" where
  "all_strings [] = True"
| "all_strings (v # vs) = (is_string v \<and> all_strings vs)"

fun string_array :: "jsval \<Rightarrow> bool" where
  "string_array (JArr xs) = all_strings xs"
| "string_array v = False"

definition tracked :: "AdData \<Rightarrow> jsval \<times> jsval \<times> jsval \<times> jsval" where
  "tracked ad = (is_active ad, start_date ad, end_date ad, creative_bodies ad)"

definition plain_tracked :: "AdData \<Rightarrow> bool" where
  "plain_tracked ad =
     (is_primitive (is_active ad) \<and> is_primitive (start_date ad) \<and>
      is_primitive (end_date ad) \<and> string_array (creative_bodies ad))"

section \<open>Payload shapes\<close>

text \<open>
  Following a path of property names from a value, where a step from \<^verbatim>\<open>null\<close> or
  from an absent property leads nowhere.  The anchor path is the one the comment at
  line 64 names; it is missing when it does not lead to an array.
\<close>

fun walk :: "jsval \<Rightarrow> string list \<Rightarrow> jsval" where
  "walk v [] = v"
| "walk v (k # ks) = (if nullish v then JUndefined else walk (get v k) ks)"

definition anchor_path :: "string list" where
  "anchor_path = [''data'', ''ad_library_main'', ''search_results_connection'', ''edges'']"

definition missing_anchor_path :: "jsval \<Rightarrow> bool" where
  "missing_anchor_path response =
     (case walk response anchor_path of JArr es \<Rightarrow> False | _ \<Rightarrow> True)"

section \<open>Two runs compared\<close>

text \<open>
  A record without its capture time.  A value that looks like a synthesized identity.
  A raw object has an identity when \<^verbatim>\<open>ad_archive_id || id\<close> is truthy and does not
  look synthesized; a response is identified when every truthy element that the
  traversal can visit has one.
\<close>

definition untimed :: "AdData \<Rightarrow> AdData" where
  "untimed ad = ad\<lparr> fetched_at := 0 \<rparr>"

definition placeholder_like :: "jsval \<Rightarrow> bool" where
  "placeholder_like v = (case v of JStr s \<Rightarrow> take 8 s = ''unknown_'' | _ \<Rightarrow> False)"

definition has_identity :: "jsval \<Rightarrow> bool" where
  "has_identity adResult =
     (let i = js_or (get adResult ''ad_archive_id'') (get adResult ''id'')
      in truthy i \<and> \<not> placeholder_like i)"

definition results_of_edge :: "jsval \<Rightarrow> jsval list" where
  "results_of_edge edge =
     (let node = opt edge ''node''
      in if truthy node
         then (case iterate (js_or (get node ''collated_results'') (JArr [])) of
                 Inr xs \<Rightarrow> xs | Inl e \<Rightarrow> [])
         else [])"

definition edges_of :: "jsval \<Rightarrow> jsval list" where
  "edges_of response = (case walk response anchor_path of JArr es \<Rightarrow> es | _ \<Rightarrow> [])"

definition identified :: "jsval \<Rightarrow> bool" where
  "identified response =
     list_all (\<lambda>edge. list_all (\<lambda>r. \<not> truthy r \<or> has_identity r) (results_of_edge edge))
       (edges_of response)"

text \<open>
  The same for a session map, the ad files, the metadata files (without
  \<open>last_synced\<close>), the states of the two handlers and what a run leaves behind.
\<close>

definition untimed_session :: "session \<Rightarrow> session" where
  "untimed_session m = map (\<lambda>kv. (fst kv, untimed (snd kv))) m"

definition untimed_store :: "store \<Rightarrow> store" where
  "untimed_store db = (\<lambda>file. map_option untimed (db file))"

definition untimed_metas :: "meta_store \<Rightarrow> meta_store" where
  "untimed_metas ms = (\<lambda>dir. map_option (\<lambda>md. md\<lparr> last_synced := 0 \<rparr>) (ms dir))"

definition untimed_capture :: "capture_state \<Rightarrow> capture_state" where
  "untimed_capture st =
     \<lparr> capturedAds = untimed_session (capturedAds st),
       cap_files = untimed_store (cap_files st) \<rparr>"

definition untimed_sync :: "sync_state \<Rightarrow> sync_state" where
  "untimed_sync st =
     \<lparr> updatedAds = untimed_session (updatedAds st),
       sync_files = untimed_store (sync_files st),
       sync_log = sync_log st \<rparr>"

definition timeless :: "'a outcome_scheme \<Rightarrow> js_error option \<times> session \<times> store \<times> meta_store" where
  "timeless out =
     (raised out, untimed_session (final_session out), untimed_store (ad_files out),
      untimed_metas (meta_files out))"

fun identified_body :: "jsval option \<Rightarrow> bool" where
  "identified_body None = True"
| "identified_body (Some json) = identified json"

section \<open>Samples\<close>

text \<open>Sample payloads: a response with the given edges, an edge around one node.\<close>

definition search_response :: "jsval list \<Rightarrow> jsval" where
  "search_response es =
     JObj [(''data'', JObj [(''ad_library_main'',
       JObj [(''search_results_connection'', JObj [(''edges'', JArr es)])])])]"

definition edge_of :: "jsval \<Rightarrow> jsval" where
  "edge_of cr = JObj [(''node'', JObj [(''collated_results'', cr)])]"

definition raw_A :: jsval where
  "raw_A = JObj [(''ad_archive_id'', JStr ''A''), (''page_id'', JStr ''P''),
                 (''is_active'', JBool True)]"

definition raw_anonymous :: jsval where
  "raw_anonymous = JObj [(''page_id'', JStr ''P'')]"

definition raw_with_bodies :: jsval where
  "raw_with_bodies =
     JObj [(''ad_archive_id'', JStr ''A''), (''page_id'', JStr ''P''),
           (''creative_bodies'', JArr [JStr ''First'', JStr ''Second'']),
           (''snapshot'', JObj [(''body'', JObj [(''text'', JStr ''Hello'')])])]"

text \<open>Two clocks: one that advances a millisecond at every reading, one that stands still.\<close>

definition ticking :: clock where
  "ticking k = 10 + k"

definition standing :: clock where
  "standing k = 10"

text \<open>The records that extraction builds from the sample objects.\<close>

definition record_A :: "nat \<Rightarrow> AdData" where
  "record_A t =
     \<lparr> ad_id = JStr ''A'', page_id = JStr ''P'', is_active = JBool True,
       start_date = JUndefined, end_date = JUndefined, snapshot_url = JUndefined,
       creative_bodies = JArr [], fetched_at = t,
       raw_data = JObj [(''ad_archive_id'', JStr ''A''), (''page_id'', JStr ''P''),
                        (''is_active'', JBool True), (''snapshot'', JObj [])] \<rparr>"

definition record_anonymous :: AdData where
  "record_anonymous =
     \<lparr> ad_id = JStr ''unknown_10'', page_id = JStr ''P'', is_active = JBool True,
       start_date = JUndefined, end_date = JUndefined, snapshot_url = JUndefined,
       creative_bodies = JArr [], fetched_at = 11,
       raw_data = JObj [(''page_id'', JStr ''P''), (''snapshot'', JObj [])] \<rparr>"

definition record_with_bodies :: AdData where
  "record_with_bodies =
     \<lparr> ad_id = JStr ''A'', page_id = JStr ''P'', is_active = JBool True,
       start_date = JUndefined, end_date = JUndefined, snapshot_url = JUndefined,
       creative_bodies = JArr [JStr ''Hello''], fetched_at = 10,
       raw_data = JObj [(''ad_archive_id'', JStr ''A''), (''page_id'', JStr ''P''),
                        (''creative_bodies'', JArr [JStr ''First'', JStr ''Second'']),
                        (''snapshot'', JObj [(''body'', JObj [(''text'', JStr ''Hello'')])])] \<rparr>"

definition raw_other_bodies :: jsval where
  "raw_other_bodies =
     JObj [(''ad_archive_id'', JStr ''A''), (''page_id'', JStr ''P''),
           (''creative_bodies'', JArr [JStr ''Third'']),
           (''snapshot'', JObj [(''body'', JObj [(''text'', JStr ''Hello'')])])]"

definition record_other_bodies :: AdData where
  "record_other_bodies =
     \<lparr> ad_id = JStr ''A'', page_id = JStr ''P'', is_active = JBool True,
       start_date = JUndefined, end_date = JUndefined, snapshot_url = JUndefined,
       creative_bodies = JArr [JStr ''Hello''], fetched_at = 10,
       raw_data = JObj [(''ad_archive_id'', JStr ''A''), (''page_id'', JStr ''P''),
                        (''creative_bodies'', JArr [JStr ''Third'']),
                        (''snapshot'', JObj [(''body'', JObj [(''text'', JStr ''Hello'')])])] \<rparr>"

definition record_B :: "nat \<Rightarrow> AdData" where
  "record_B t =
     \<lparr> ad_id = JStr ''B'', page_id = JStr ''P'', is_active = JBool False,
       start_date = JUndefined, end_date = JStr ''2024-12-01'', snapshot_url = JUndefined,
       creative_bodies = JArr [], fetched_at = t,
       raw_data = JObj [(''ad_archive_id'', JStr ''B''), (''page_id'', JStr ''P''),
                        (''is_active'', JBool False), (''end_date'', JStr ''2024-12-01''),
                        (''snapshot'', JObj [])] \<rparr>"

definition record_C :: "nat \<Rightarrow> AdData" where
  "record_C t = (record_B t)\<lparr> ad_id := JStr ''C'' \<rparr>"

definition record_A_stopped :: "nat \<Rightarrow> AdData" where
  "record_A_stopped t = (record_A t)\<lparr> is_active := JBool False \<rparr>"

definition fresh_capture :: capture_state where
  "fresh_capture = \<lparr> capturedAds = [], cap_files = Map.empty \<rparr>"

text \<open>
  Two file systems: one that lets every write through, one that refuses a file name
  with a path separator.  And a record whose id holds one.
\<close>

definition all_writable :: file_system where
  "all_writable file = True"

definition flat_names :: file_system where
  "flat_names file = (CHR ''/'' \<notin> set (snd file))"

definition record_slash :: "nat \<Rightarrow> AdData" where
  "record_slash t = (record_B t)\<lparr> ad_id := JStr ''a/b'' \<rparr>"

text \<open>
  A raw object whose \<^verbatim>\<open>is_active\<close> is an object, the record that extraction builds
  from it, and a database that holds that record.  A record of A as a file without
  \<^verbatim>\<open>creative_bodies\<close> gives it.
\<close>

definition raw_flagged :: jsval where
  "raw_flagged = JObj [(''ad_archive_id'', JStr ''F''), (''page_id'', JStr ''P''),
                       (''is_active'', JObj [(''on'', JBool True)])]"

definition record_flagged :: "nat \<Rightarrow> AdData" where
  "record_flagged t =
     \<lparr> ad_id = JStr ''F'', page_id = JStr ''P'', is_active = JObj [(''on'', JBool True)],
       start_date = JUndefined, end_date = JUndefined, snapshot_url = JUndefined,
       creative_bodies = JArr [], fetched_at = t,
       raw_data = JObj [(''ad_archive_id'', JStr ''F''), (''page_id'', JStr ''P''),
                        (''is_active'', JObj [(''on'', JBool True)]), (''snapshot'', JObj [])] \<rparr>"

definition synced_flagged :: sync_state where
  "synced_flagged =
     \<lparr> updatedAds = [], sync_files = [(''P'', ''F.json'') \<mapsto> record_flagged 10], sync_log = [] \<rparr>"

definition record_A_without_bodies :: AdData where
  "record_A_without_bodies = (record_A 10)\<lparr> creative_bodies := JUndefined \<rparr>"

text \<open>A database that holds the record of A, and the metadata of its page.\<close>

definition raw_A_stopped :: jsval where
  "raw_A_stopped = JObj [(''ad_archive_id'', JStr ''A''), (''page_id'', JStr ''P''),
                         (''is_active'', JBool False)]"

definition db_A :: store where
  "db_A = [(''P'', ''A.json'') \<mapsto> record_A 10]"

definition meta_P :: meta_store where
  "meta_P = [''P'' \<mapsto> \<lparr> meta_page_id = JStr ''P'', last_synced = 10, total_ads = 1 \<rparr>]"

definition synced_A :: sync_state where
  "synced_A = \<lparr> updatedAds = [], sync_files = db_A, sync_log = [] \<rparr>"

text \<open>A third clock, and a run of one response that shows the ad A.\<close>

definition later :: clock where
  "later k = 50 + k"

definition bodies_A :: "jsval option list" where
  "bodies_A = [Some (search_response [edge_of (JArr [raw_A])])]"

section \<open>Properties of extraction\<close>

lemma truthy_unknown_id: "truthy (unknown_id t)"
  by (simp add: unknown_id_def)

lemma truthy_js_or: "truthy b \<Longrightarrow> truthy (js_or a b)"
  by (simp add: js_or_def)

lemma truthy_not_nullish: "truthy v \<Longrightarrow> \<not> nullish v"
  by (cases v) simp_all

lemma build_ad_identity:
  assumes "build_ad clk n adResult = Inr (ad, n')"
  shows "truthy (ad_id ad) \<and> truthy (page_id ad)"
  using assms
  by (auto simp: build_ad_def read_prop_def Date_now_def truthy_unknown_id truthy_js_or Let_def
           split: if_splits prod.splits)

lemma build_ad_truthy_ok:
  "truthy adResult \<Longrightarrow> \<exists>ad n'. build_ad clk n adResult = Inr (ad, n')"
  by (cases adResult) (auto simp: build_ad_def read_prop_def Let_def split: prod.splits)

text \<open>A property of every record that \<open>build_ad\<close> makes holds of every record pushed.\<close>

lemma for_collated_invariant:
  assumes step: "\<forall>n r ad n'. build_ad clk n r = Inr (ad, n') \<longrightarrow> P ad"
  shows "for_collated clk xs (ads, n) = (e, ads', n') \<Longrightarrow> \<forall>a\<in>set ads. P a \<Longrightarrow> \<forall>a\<in>set ads'. P a"
proof (induction xs arbitrary: ads n)
  case Nil
  then show ?case by simp
next
  case (Cons x xs)
  show ?case
  proof (cases "truthy x")
    case False
    with Cons show ?thesis by simp
  next
    case True
    then obtain ad n1 where b: "build_ad clk n x = Inr (ad, n1)"
      using build_ad_truthy_ok by blast
    have "P ad" using step b by blast
    with Cons.prems True b Cons.IH[of "ads @ [ad]" "Suc n1"] Cons.IH[of ads "Suc n1"]
      Cons.IH[of ads n1]
    show ?thesis
      by (auto simp: Date_now_def split: if_splits)
  qed
qed

lemma for_edges_invariant:
  assumes step: "\<forall>n r ad n'. build_ad clk n r = Inr (ad, n') \<longrightarrow> P ad"
  shows "for_edges clk es (ads, n) = (e, ads', n') \<Longrightarrow> \<forall>a\<in>set ads. P a \<Longrightarrow> \<forall>a\<in>set ads'. P a"
proof (induction es arbitrary: ads n)
  case Nil
  then show ?case by simp
next
  case (Cons x xs)
  note inv = for_collated_invariant[OF step]
  show ?case
  proof (cases "truthy (opt x ''node'')")
    case False
    with Cons show ?thesis by simp
  next
    case True
    show ?thesis
    proof (cases "read_prop (opt x ''node'') ''collated_results''")
      case (Inl err)
      with True Cons.prems show ?thesis by simp
    next
      case (Inr cr)
      show ?thesis
      proof (cases "iterate (js_or cr (JArr []))")
        case (Inl err)
        with True Inr Cons.prems show ?thesis by simp
      next
        case items: (Inr collatedResults)
        obtain e1 ads1 n1 where c: "for_collated clk collatedResults (ads, n) = (e1, ads1, n1)"
          by (metis prod_cases3)
        have p1: "\<forall>a\<in>set ads1. P a"
          using inv[OF c] Cons.prems(2) by blast
        show ?thesis
        proof (cases e1)
          case None
          with True Inr items c Cons.prems(1)
          have "for_edges clk xs (ads1, n1) = (e, ads', n')" by simp
          then show ?thesis using Cons.IH p1 by blast
        next
          case (Some err)
          with True Inr items c Cons.prems(1) have "ads' = ads1" by simp
          then show ?thesis using p1 by simp
        qed
      qed
    qed
  qed
qed

lemma extractAdData_invariant:
  assumes step: "\<forall>n r ad n'. build_ad clk n r = Inr (ad, n') \<longrightarrow> P ad"
    and ex: "extractAdData clk n response = Inr (ads, n')"
  shows "\<forall>a\<in>set ads. P a"
  using ex for_edges_invariant[OF step, where ads = "[]"]
  by (fastforce simp: extractAdData_def Let_def split: if_splits jsval.splits prod.splits option.splits)

lemma extractAdData_returns: "\<exists>ads n'. extractAdData clk n response = Inr (ads, n')"
  by (auto simp: extractAdData_def Let_def split: jsval.splits prod.splits option.splits)

lemma walk_anchor:
  "walk response anchor_path =
     opt (opt (opt (opt response ''data'') ''ad_library_main'') ''search_results_connection'') ''edges''"
  by (simp add: anchor_path_def opt_def)

lemma opt_falsy: "\<not> truthy v \<Longrightarrow> opt (opt (opt v a) b) c = JUndefined"
  by (cases v) (simp_all add: opt_def)

lemma extractAdData_missing_anchor:
  assumes "missing_anchor_path response"
  shows "extractAdData clk n response = Inr ([], n)"
proof (cases "truthy (opt response ''data'')")
  case False
  then show ?thesis by (simp add: extractAdData_def)
next
  case True
  with assms show ?thesis
    by (auto simp: extractAdData_def missing_anchor_path_def walk_anchor Let_def
             split: jsval.splits)
qed

text \<open>
  C1. Extraction never lets an error out: for every input value, parsed body or not, it
  returns a list of records.  When the anchor path
  \<^verbatim>\<open>data.ad_library_main.search_results_connection.edges\<close> is missing (some step of
  it is absent or \<^verbatim>\<open>null\<close>, or it does not end in an array), as for \<^verbatim>\<open>null\<close>,
  \<^verbatim>\<open>{}\<close> and \<^verbatim>\<open>{data: null}\<close>, the list is empty and the clock has not been read.
\<close>

theorem extractAdData_total_and_empty_without_anchor:
  "(\<exists>ads n'. extractAdData clk n response = Inr (ads, n')) \<and>
   (missing_anchor_path response \<longrightarrow> extractAdData clk n response = Inr ([], n))"
  using extractAdData_returns extractAdData_missing_anchor by blast

theorem extractAdData_empty_witness:
  "missing_anchor_path JNull \<and> extractAdData ticking 0 JNull = Inr ([], 0) \<and>
   missing_anchor_path (JObj []) \<and> extractAdData ticking 0 (JObj []) = Inr ([], 0) \<and>
   missing_anchor_path (JObj [(''data'', JNull)]) \<and>
   extractAdData ticking 0 (JObj [(''data'', JNull)]) = Inr ([], 0) \<and>
   missing_anchor_path (JObj [(''data'', JObj [(''ad_library_main'', JObj [])])]) \<and>
   extractAdData ticking 0 (JObj [(''data'', JObj [(''ad_library_main'', JObj [])])]) = Inr ([], 0)"
proof -
  have m1: "missing_anchor_path JNull"
    by (simp add: missing_anchor_path_def anchor_path_def)
  have m2: "missing_anchor_path (JObj [])"
    by (simp add: missing_anchor_path_def anchor_path_def)
  have m3: "missing_anchor_path (JObj [(''data'', JNull)])"
    by (simp add: missing_anchor_path_def anchor_path_def)
  have m4: "missing_anchor_path (JObj [(''data'', JObj [(''ad_library_main'', JObj [])])])"
    by (simp add: missing_anchor_path_def anchor_path_def)
  show ?thesis
    using m1 m2 m3 m4
      extractAdData_total_and_empty_without_anchor[of ticking 0 JNull]
      extractAdData_total_and_empty_without_anchor[of ticking 0 "JObj []"]
      extractAdData_total_and_empty_without_anchor[of ticking 0 "JObj [(''data'', JNull)]"]
      extractAdData_total_and_empty_without_anchor[of ticking 0
        "JObj [(''data'', JObj [(''ad_library_main'', JObj [])])]"]
    by blast
qed

lemma extract_A:
  "extractAdData ticking 0 (search_response [edge_of (JArr [raw_A])]) = Inr ([record_A 10], 2)"
  by code_simp

text \<open>
  C4. Every record that extraction returns has a truthy \<open>ad_id\<close> and a truthy
  \<open>page_id\<close>: neither is absent, \<^verbatim>\<open>null\<close> or the empty string.  The records
  handed to \<^verbatim>\<open>saveAd\<close> are records that extraction returned.
\<close>

theorem extracted_records_have_identity:
  assumes "extractAdData clk n response = Inr (ads, n')" and "ad \<in> set ads"
  shows "truthy (ad_id ad) \<and> truthy (page_id ad) \<and>
         ad_id ad \<noteq> JStr [] \<and> page_id ad \<noteq> JStr [] \<and>
         \<not> nullish (ad_id ad) \<and> \<not> nullish (page_id ad)"
proof -
  have "\<forall>a\<in>set ads. truthy (ad_id a) \<and> truthy (page_id a)"
    using extractAdData_invariant[where P = "\<lambda>a. truthy (ad_id a) \<and> truthy (page_id a)", OF _ assms(1)]
      build_ad_identity by blast
  with assms(2) have t: "truthy (ad_id ad)" "truthy (page_id ad)" by auto
  then show ?thesis
    using truthy_not_nullish by fastforce
qed

theorem extracted_records_have_identity_witness:
  "extractAdData ticking 0 (search_response [edge_of (JArr [raw_A])]) = Inr ([record_A 10], 2) \<and>
   record_A 10 \<in> set [record_A 10] \<and>
   truthy (ad_id (record_A 10)) \<and> truthy (page_id (record_A 10)) \<and>
   ad_id (record_A 10) \<noteq> JStr [] \<and> page_id (record_A 10) \<noteq> JStr []"
  using extracted_records_have_identity[OF extract_A, of "record_A 10"] extract_A
  by simp

lemma walk_snapshot:
  "\<not> nullish raw \<Longrightarrow>
   opt (get (js_or (get raw ''snapshot'') (JObj [])) ''body'') ''text'' =
   walk raw [''snapshot'', ''body'', ''text'']"
  by (cases "get raw ''snapshot''") (auto simp: js_or_def opt_def)

lemma build_ad_creative_bodies:
  assumes "build_ad clk m r = Inr (a, m')"
  shows "creative_bodies a =
         JArr (filter truthy [opt (get (js_or (get r ''snapshot'') (JObj [])) ''body'') ''text''])"
  using assms
  by (auto simp: build_ad_def read_prop_def Let_def split: if_splits prod.splits)

text \<open>
  C10. The record built from a raw object has as \<open>creative_bodies\<close> the array of
  the value at \<^verbatim>\<open>snapshot.body.text\<close> alone when that value is truthy, and the
  empty array when it is absent or falsy: an array of at most one element.  A \<^verbatim>\<open>creative_bodies\<close> property of
  the raw object itself plays no part: two raw objects that agree on every other
  property give the same \<open>creative_bodies\<close>.
\<close>

theorem creative_bodies_from_snapshot_text:
  assumes "build_ad clk n raw = Inr (ad, n')"
  shows "creative_bodies ad = JArr (filter truthy [walk raw [''snapshot'', ''body'', ''text'']]) \<and>
         (\<exists>xs. creative_bodies ad = JArr xs \<and> length xs \<le> 1) \<and>
         (\<forall>raw' m ad' m'.
            (\<forall>k. k \<noteq> ''creative_bodies'' \<longrightarrow> get raw' k = get raw k) \<longrightarrow>
            build_ad clk m raw' = Inr (ad', m') \<longrightarrow> creative_bodies ad' = creative_bodies ad)"
proof -
  note cb = build_ad_creative_bodies
  have nn: "\<not> nullish raw"
    using assms by (auto simp: build_ad_def read_prop_def split: if_splits)
  have 1: "creative_bodies ad = JArr (filter truthy [walk raw [''snapshot'', ''body'', ''text'']])"
    using cb[OF assms] walk_snapshot[OF nn] by simp
  have 2: "\<exists>xs. creative_bodies ad = JArr xs \<and> length xs \<le> 1"
    using 1 by simp
  have 3: "creative_bodies ad' = creative_bodies ad"
    if "\<forall>k. k \<noteq> ''creative_bodies'' \<longrightarrow> get raw' k = get raw k"
      and "build_ad clk m raw' = Inr (ad', m')" for raw' m ad' m'
  proof -
    have "get raw' ''snapshot'' = get raw ''snapshot''"
      using that(1) by simp
    then show ?thesis
      using cb[OF that(2)] cb[OF assms] by simp
  qed
  show ?thesis
    using 1 2 3 by blast
qed

theorem creative_bodies_from_snapshot_text_witness:
  "build_ad ticking 0 raw_with_bodies = Inr (record_with_bodies, 1) \<and>
   creative_bodies record_with_bodies = JArr [JStr ''Hello''] \<and>
   get raw_with_bodies ''creative_bodies'' = JArr [JStr ''First'', JStr ''Second''] \<and>
   get raw_other_bodies ''creative_bodies'' = JArr [JStr ''Third''] \<and>
   build_ad ticking 0 raw_other_bodies = Inr (record_other_bodies, 1) \<and>
   creative_bodies record_other_bodies = creative_bodies record_with_bodies"
proof -
  have b1: "build_ad ticking 0 raw_with_bodies = Inr (record_with_bodies, 1)"
    by code_simp
  have b2: "build_ad ticking 0 raw_other_bodies = Inr (record_other_bodies, 1)"
    by code_simp
  have agree: "\<forall>k. k \<noteq> ''creative_bodies'' \<longrightarrow> get raw_other_bodies k = get raw_with_bodies k"
    by (simp add: raw_other_bodies_def raw_with_bodies_def)
  have "creative_bodies record_with_bodies = JArr [JStr ''Hello'']"
    by (simp add: record_with_bodies_def)
  moreover have "get raw_with_bodies ''creative_bodies'' = JArr [JStr ''First'', JStr ''Second'']"
    by (simp add: raw_with_bodies_def)
  moreover have "get raw_other_bodies ''creative_bodies'' = JArr [JStr ''Third'']"
    by (simp add: raw_other_bodies_def)
  ultimately show ?thesis
    using creative_bodies_from_snapshot_text[OF b1] agree b1 b2 by blast
qed

text \<open>
  An edge without a node, or whose node has no \<^verbatim>\<open>collated_results\<close> (absent,
  \<^verbatim>\<open>null\<close> or otherwise falsy), is passed over: the traversal goes on with the
  edges after it, with the records and the clock as they were.
\<close>

lemma for_edges_skips_empty_edge:
  assumes "\<not> truthy (opt edge ''node'') \<or> \<not> truthy (get (opt edge ''node'') ''collated_results'')"
  shows "for_edges clk (edge # rest) (ads, n) = for_edges clk rest (ads, n)"
proof (cases "truthy (opt edge ''node'')")
  case False
  then show ?thesis by simp
next
  case True
  then have "\<not> nullish (opt edge ''node'')" by (rule truthy_not_nullish)
  then show ?thesis
    using assms True by (simp add: read_prop_def js_or_def)
qed

text \<open>
  C2, at the failing input.  A node whose \<^verbatim>\<open>collated_results\<close> is the number 5 is
  followed by a node with the ad A.  The loop header at line 81 raises on the number,
  the \<^verbatim>\<open>catch\<close> at line 107 ends the traversal, and A is never reached.  With
  \<^verbatim>\<open>null\<close> in place of the number, A is extracted.
\<close>

theorem non_sequence_collated_results_ends_traversal:
  "extractAdData ticking 0 (search_response [edge_of (JNum 5), edge_of (JArr [raw_A])]) = Inr ([], 0) \<and>
   extractAdData ticking 0 (search_response [edge_of (JObj []), edge_of (JArr [raw_A])]) = Inr ([], 0) \<and>
   extractAdData ticking 0 (search_response [edge_of JNull, edge_of (JArr [raw_A])])
     = Inr ([record_A 10], 2)"
  by code_simp

text \<open>
  C3, at the failing input.  The raw object has neither \<^verbatim>\<open>ad_archive_id\<close> nor
  \<^verbatim>\<open>id\<close>.  Line 87 reads the clock at 10 and makes the identity
  \<^verbatim>\<open>unknown_10\<close>; line 102 reads the clock again, at 12, and compares with
  \<^verbatim>\<open>unknown_12\<close>: the record is kept.  When both readings agree it is dropped.
\<close>

theorem synthesized_identity_kept_when_clock_advances:
  "extractAdData ticking 0 (search_response [edge_of (JArr [raw_anonymous])])
     = Inr ([record_anonymous], 3) \<and>
   ad_id record_anonymous = unknown_id 10 \<and>
   extractAdData standing 0 (search_response [edge_of (JArr [raw_anonymous])]) = Inr ([], 3)"
  by code_simp

section \<open>Properties of the session map\<close>

lemmas sample_defs = record_A_def record_B_def record_C_def record_A_stopped_def record_slash_def
  fresh_capture_def all_writable_def flat_names_def

lemma Map_set_keys: "fst ` set (Map_set k v m) = insert k (fst ` set m)"
proof (induction m)
  case Nil
  then show ?case by simp
next
  case (Cons p m)
  then show ?case by (cases p) (auto simp: insert_commute)
qed

lemma Map_set_distinct: "distinct (map fst m) \<Longrightarrow> distinct (map fst (Map_set k v m))"
proof (induction m)
  case Nil
  then show ?case by simp
next
  case (Cons p m)
  then show ?case by (cases p) (auto simp: Map_set_keys)
qed

lemma Map_set_length:
  "length (Map_set k v m) = (if k \<in> fst ` set m then length m else Suc (length m))"
proof (induction m)
  case Nil
  then show ?case by simp
next
  case (Cons p m)
  then show ?case by (cases p) (auto simp: image_iff)
qed

lemma map_of_Map_set: "map_of (Map_set k v m) = (map_of m)(k \<mapsto> v)"
  by (induction m) (auto simp: fun_eq_iff)

lemma distinct_keys_card: "distinct (map fst m) \<Longrightarrow> card (fst ` set m) = length m"
  by (metis distinct_card length_map set_map)

lemma saveAd_savable: "savable fs ad \<Longrightarrow> \<exists>db'. saveAd fs db ad = Inr db'"
  by (cases "page_id ad") (simp_all add: saveAd_def savable_def)

lemma capture_responses_extracted:
  "fst (capture_responses clk fs max_ads bodies (st, n)) = capture_batches fs max_ads (extracted clk bodies n) st"
proof (induction bodies arbitrary: st n)
  case Nil
  then show ?case by simp
next
  case (Cons body bodies)
  show ?case
  proof (cases body)
    case None
    then show ?thesis using Cons.IH by (simp add: capture_response_def)
  next
    case (Some json)
    then show ?thesis
      using Cons.IH
      by (auto simp: capture_response_def capture_batch_def split: sum.splits prod.splits)
  qed
qed

lemma capture_loop_capped:
  assumes "0 < N"
  shows "capped_inv N st \<Longrightarrow> \<forall>ad\<in>set ads. savable fs ad \<Longrightarrow>
         capture_loop fs (Some N) ads st = (e, st') \<Longrightarrow>
         e = None \<and> capped_inv N st' \<and>
         length (capturedAds st) \<le> length (capturedAds st') \<and>
         fst ` set (capturedAds st') \<subseteq> fst ` set (capturedAds st) \<union> ad_id ` set ads \<and>
         (length (capturedAds st') < N \<longrightarrow>
            fst ` set (capturedAds st') = fst ` set (capturedAds st) \<union> ad_id ` set ads)"
proof (induction ads arbitrary: st)
  case Nil
  then show ?case by simp
next
  case (Cons ad rest)
  let ?m = "capturedAds st"
  have d: "distinct (map fst ?m)" and le: "length ?m \<le> N"
    using Cons.prems(1) by (simp_all add: capped_inv_def)
  show ?case
  proof (cases "length ?m < N")
    case False
    have step: "capture_loop fs (Some N) rest st = (e, st')"
      using Cons.prems(3) False assms by (simp add: below_cap_def)
    have ih: "e = None \<and> capped_inv N st' \<and>
         length ?m \<le> length (capturedAds st') \<and>
         fst ` set (capturedAds st') \<subseteq> fst ` set ?m \<union> ad_id ` set rest \<and>
         (length (capturedAds st') < N \<longrightarrow>
            fst ` set (capturedAds st') = fst ` set ?m \<union> ad_id ` set rest)"
      using Cons.IH[OF Cons.prems(1) _ step] Cons.prems(2) by simp
    then have "\<not> length (capturedAds st') < N" using False by simp
    then show ?thesis using ih by auto
  next
    case True
    obtain db where sv: "saveAd fs (cap_files st) ad = Inr db"
      using saveAd_savable Cons.prems(2) by (metis list.set_intros(1))
    let ?st2 = "st\<lparr> capturedAds := Map_set (ad_id ad) ad ?m, cap_files := db \<rparr>"
    let ?m2 = "Map_set (ad_id ad) ad ?m"
    have d2: "distinct (map fst ?m2)" using d by (rule Map_set_distinct)
    have le2: "length ?m2 \<le> N" using True by (simp add: Map_set_length)
    have mono: "length ?m \<le> length ?m2" by (simp add: Map_set_length)
    have inv2: "capped_inv N ?st2" using d2 le2 by (simp add: capped_inv_def)
    have keys2: "fst ` set ?m2 \<union> ad_id ` set rest = fst ` set ?m \<union> ad_id ` set (ad # rest)"
      by (auto simp: Map_set_keys)
    show ?thesis
    proof (cases "length ?m2 \<ge> N")
      case True
      have res: "e = None" "st' = ?st2"
        using Cons.prems(3) \<open>length ?m < N\<close> sv True assms
        by (simp_all add: below_cap_def cap_reached_def)
      have "fst ` set ?m2 \<subseteq> fst ` set ?m \<union> ad_id ` set (ad # rest)"
        using keys2 by blast
      then show ?thesis using res inv2 True mono by simp
    next
      case False
      have step: "capture_loop fs (Some N) rest ?st2 = (e, st')"
        using Cons.prems(3) \<open>length ?m < N\<close> sv False assms
        by (simp add: below_cap_def cap_reached_def)
      have ih: "e = None \<and> capped_inv N st' \<and>
         length ?m2 \<le> length (capturedAds st') \<and>
         fst ` set (capturedAds st') \<subseteq> fst ` set ?m2 \<union> ad_id ` set rest \<and>
         (length (capturedAds st') < N \<longrightarrow>
            fst ` set (capturedAds st') = fst ` set ?m2 \<union> ad_id ` set rest)"
        using Cons.IH[OF inv2 _ step] Cons.prems(2) by simp
      show ?thesis
        using ih mono unfolding keys2 by simp
    qed
  qed
qed

lemma capture_batches_capped:
  assumes "0 < N"
  shows "capped_inv N st \<Longrightarrow> \<forall>ads\<in>set batches. \<forall>ad\<in>set ads. savable fs ad \<Longrightarrow>
         capped_inv N (capture_batches fs (Some N) batches st) \<and>
         length (capturedAds st) \<le> length (capturedAds (capture_batches fs (Some N) batches st)) \<and>
         (length (capturedAds (capture_batches fs (Some N) batches st)) < N \<longrightarrow>
            fst ` set (capturedAds (capture_batches fs (Some N) batches st)) =
            fst ` set (capturedAds st) \<union> ad_id ` set (concat batches))"
proof (induction batches arbitrary: st)
  case Nil
  then show ?case by simp
next
  case (Cons ads batches)
  obtain e st1 where l: "capture_loop fs (Some N) ads st = (e, st1)" by (metis surj_pair)
  have a: "\<forall>ad\<in>set ads. savable fs ad" using Cons.prems(2) by simp
  note r = capture_loop_capped[OF assms Cons.prems(1) a l]
  have eq: "(if length ads > 0 then snd (capture_loop fs (Some N) ads st) else st) = st1"
    using l by (cases ads) auto
  let ?fin = "capture_batches fs (Some N) batches st1"
  have fin: "capture_batches fs (Some N) (ads # batches) st = ?fin"
    using eq by simp
  have inv1: "capped_inv N st1" using r by simp
  have ih: "capped_inv N ?fin \<and> length (capturedAds st1) \<le> length (capturedAds ?fin) \<and>
         (length (capturedAds ?fin) < N \<longrightarrow>
            fst ` set (capturedAds ?fin) = fst ` set (capturedAds st1) \<union> ad_id ` set (concat batches))"
    using Cons.IH[OF inv1] Cons.prems(2) by simp
  have keys: "fst ` set (capturedAds ?fin) = fst ` set (capturedAds st) \<union> ad_id ` set (concat (ads # batches))"
    if "length (capturedAds ?fin) < N"
  proof -
    have "length (capturedAds st1) < N" using that ih by simp
    then have "fst ` set (capturedAds st1) = fst ` set (capturedAds st) \<union> ad_id ` set ads"
      using r by simp
    then show ?thesis using ih that by (auto simp: image_Un)
  qed
  show ?case
    unfolding fin using ih r keys by auto
qed

lemma capture_loop_full:
  assumes "0 < N" "N \<le> length (capturedAds st)"
  shows "capture_loop fs (Some N) ads st = (None, st)"
  using assms by (induction ads) (simp_all add: below_cap_def)

text \<open>
  C7, as the code has it.  With a cap \<open>N\<close> of at least 1, a fresh map, and records whose
  ids are primitive values and whose save goes through (the \<open>page_id\<close> is a string and
  the file system lets the file be written):
  when the records fed, over all responses, carry more than \<open>N\<close> distinct ids, the map
  ends with exactly \<open>N\<close> entries; the test of lines 184 and 234 is then false, and any
  further list of records leaves the state as it is and raises nothing.
\<close>

theorem cap_bounds_session:
  assumes "0 < N"
    and "capturedAds st = []"
    and "\<forall>ads\<in>set batches. \<forall>ad\<in>set ads. is_primitive (ad_id ad) \<and> savable fs ad"
    and "N < card (ad_id ` set (concat batches))"
  shows "length (capturedAds (capture_batches fs (Some N) batches st)) = N \<and>
         \<not> below_cap (Some N) (length (capturedAds (capture_batches fs (Some N) batches st))) \<and>
         (\<forall>ads. capture_loop fs (Some N) ads (capture_batches fs (Some N) batches st)
                  = (None, capture_batches fs (Some N) batches st))"
proof -
  let ?fin = "capture_batches fs (Some N) batches st"
  have inv: "capped_inv N st" using assms(2) by (simp add: capped_inv_def)
  have str: "\<forall>ads\<in>set batches. \<forall>ad\<in>set ads. savable fs ad" using assms(3) by blast
  note r = capture_batches_capped[OF assms(1) inv str]
  have "\<not> length (capturedAds ?fin) < N"
  proof
    assume lt: "length (capturedAds ?fin) < N"
    then have "fst ` set (capturedAds ?fin) = ad_id ` set (concat batches)"
      using r assms(2) by simp
    moreover have "card (fst ` set (capturedAds ?fin)) = length (capturedAds ?fin)"
      using r by (simp add: capped_inv_def distinct_keys_card)
    ultimately show False using lt assms(4) by simp
  qed
  moreover have "length (capturedAds ?fin) \<le> N" using r by (simp add: capped_inv_def)
  ultimately have len: "length (capturedAds ?fin) = N" by simp
  then show ?thesis
    using capture_loop_full[OF assms(1), of ?fin] assms(1) by (simp add: below_cap_def)
qed

theorem cap_bounds_session_witness:
  "(0::nat) < 2 \<and> capturedAds fresh_capture = [] \<and>
   is_primitive (ad_id (record_A 10)) \<and> savable all_writable (record_A 10) \<and>
   is_primitive (ad_id (record_B 11)) \<and> savable all_writable (record_B 11) \<and>
   is_primitive (ad_id (record_C 12)) \<and> savable all_writable (record_C 12) \<and>
   2 < card (ad_id ` set (concat [[record_A 10, record_B 11], [record_C 12]])) \<and>
   length (capturedAds (capture_batches all_writable (Some 2)
             [[record_A 10, record_B 11], [record_C 12]] fresh_capture)) = 2 \<and>
   capture_loop all_writable (Some 2) [record_C 13]
     (capture_batches all_writable (Some 2) [[record_A 10, record_B 11], [record_C 12]] fresh_capture)
   = (None, capture_batches all_writable (Some 2) [[record_A 10, record_B 11], [record_C 12]] fresh_capture)"
proof -
  have h1: "(0::nat) < 2" by simp
  have h2: "capturedAds fresh_capture = []" by (simp add: fresh_capture_def)
  have h3: "\<forall>ads\<in>set [[record_A 10, record_B 11], [record_C 12]].
              \<forall>ad\<in>set ads. is_primitive (ad_id ad) \<and> savable all_writable ad"
    by (simp add: sample_defs savable_def)
  have h4: "2 < card (ad_id ` set (concat [[record_A 10, record_B 11], [record_C 12]]))"
    by (simp add: sample_defs savable_def)
  have each: "is_primitive (ad_id (record_A 10)) \<and> savable all_writable (record_A 10) \<and>
     is_primitive (ad_id (record_B 11)) \<and> savable all_writable (record_B 11) \<and>
     is_primitive (ad_id (record_C 12)) \<and> savable all_writable (record_C 12)"
    by (simp add: sample_defs savable_def)
  show ?thesis
    using cap_bounds_session[OF h1 h2 h3 h4] h1 h2 h4 each by blast
qed

text \<open>
  The claim C7 fails for the cap 0, which line 184 takes for no cap at all: two records
  with two distinct ids are both put into the map.
\<close>

theorem cap_zero_accepts_everything:
  "card (ad_id ` set (concat [[record_A 10, record_B 11]])) = 2 \<and>
   length (capturedAds (capture_batches all_writable (Some 0) [[record_A 10, record_B 11]] fresh_capture)) = 2"
  by (simp add: sample_defs below_cap_def cap_reached_def saveAd_def)

text \<open>
  The program where a save fails.  The file system refuses the file of the id
  \<^verbatim>\<open>a/b\<close>; the record is put into the map, the save raises and the handler's
  \<^verbatim>\<open>catch\<close> drops the rest of the response: with the cap 2 and three distinct ids, the
  map ends with one entry.
\<close>

lemma failed_save_drops_rest_of_response:
  "capture_loop flat_names (Some 2) [record_slash 10, record_B 11, record_C 12] fresh_capture
     = (Some FsError,
        fresh_capture\<lparr> capturedAds := [(JStr ''a/b'', record_slash 10)] \<rparr>)"
  by (simp add: sample_defs below_cap_def cap_reached_def saveAd_def)

lemma below_cap_not_reached: "cap_reached max_ads k = (\<not> below_cap max_ads k)"
  by (cases max_ads) (auto simp: cap_reached_def below_cap_def)

lemma seen_until_cap_full:
  "\<not> below_cap max_ads (distinct_ids acc) \<Longrightarrow> seen_until_cap max_ads acc ads = acc"
  by (cases ads) simp_all

lemma seen_until_cap_append:
  "seen_until_cap max_ads acc (xs @ ys) = seen_until_cap max_ads (seen_until_cap max_ads acc xs) ys"
proof (induction xs arbitrary: acc)
  case Nil
  then show ?case by simp
next
  case (Cons x xs)
  then show ?case by (simp add: seen_until_cap_full)
qed

lemma seen_until_cap_uncapped:
  "uncapped max_ads \<Longrightarrow> seen_until_cap max_ads acc ads = acc @ ads"
proof (induction ads arbitrary: acc)
  case Nil
  then show ?case by simp
next
  case (Cons x xs)
  then have "below_cap max_ads k" for k
    by (auto simp: uncapped_def below_cap_def split: option.splits)
  then show ?case using Cons by simp
qed

lemma last_with_id_snoc:
  "last_with_id (acc @ [ad]) k = (if ad_id ad = k then Some ad else last_with_id acc k)"
  by (simp add: last_with_id_def)

lemma last_with_id_dom: "(last_with_id acc k \<noteq> None) = (k \<in> (\<lambda>ad. ad_id ad) ` set acc)"
  by (auto simp: last_with_id_def find_None_iff)

lemma holds_last_size:
  assumes "holds_last m acc"
  shows "length m = distinct_ids acc"
proof -
  have d: "distinct (map fst m)" and eq: "\<And>k. map_of m k = last_with_id acc k"
    using assms by (simp_all add: holds_last_def)
  have "k \<in> fst ` set m \<longleftrightarrow> k \<in> (\<lambda>ad. ad_id ad) ` set acc" for k
    using eq[of k] last_with_id_dom[of acc k] by (metis map_of_eq_None_iff)
  then have "fst ` set m = (\<lambda>ad. ad_id ad) ` set acc" by blast
  then have "card (fst ` set m) = card (set (map (\<lambda>ad. ad_id ad) acc))" by simp
  then show ?thesis
    using distinct_keys_card[OF d] by (simp add: distinct_ids_def length_remdups_card_conv)
qed

lemma holds_last_step:
  assumes "holds_last m acc"
  shows "holds_last (Map_set (ad_id ad) ad m) (acc @ [ad])"
  using assms
  by (auto simp: holds_last_def Map_set_distinct map_of_Map_set last_with_id_snoc)

lemma capture_loop_holds_last:
  "holds_last (capturedAds st) acc \<Longrightarrow> \<forall>ad\<in>set ads. savable fs ad \<Longrightarrow>
   capture_loop fs max_ads ads st = (e, st') \<Longrightarrow>
   e = None \<and> holds_last (capturedAds st') (seen_until_cap max_ads acc ads)"
proof (induction ads arbitrary: st acc)
  case Nil
  then show ?case by simp
next
  case (Cons ad rest)
  have size: "length (capturedAds st) = distinct_ids acc"
    using Cons.prems(1) by (rule holds_last_size)
  show ?case
  proof (cases "below_cap max_ads (distinct_ids acc)")
    case False
    then have step: "capture_loop fs max_ads rest st = (e, st')"
      using Cons.prems(3) size by simp
    have "e = None \<and> holds_last (capturedAds st') (seen_until_cap max_ads acc rest)"
      using Cons.IH[OF Cons.prems(1) _ step] Cons.prems(2) by simp
    then show ?thesis using False by (simp add: seen_until_cap_full)
  next
    case True
    obtain db where sv: "saveAd fs (cap_files st) ad = Inr db"
      using saveAd_savable Cons.prems(2) by (metis list.set_intros(1))
    let ?m2 = "Map_set (ad_id ad) ad (capturedAds st)"
    let ?st2 = "st\<lparr> capturedAds := ?m2, cap_files := db \<rparr>"
    have h2: "holds_last ?m2 (acc @ [ad])"
      using Cons.prems(1) by (rule holds_last_step)
    then have size2: "length ?m2 = distinct_ids (acc @ [ad])"
      by (rule holds_last_size)
    show ?thesis
    proof (cases "below_cap max_ads (distinct_ids (acc @ [ad]))")
      case False
      then have "e = None" "st' = ?st2"
        using Cons.prems(3) True size sv size2 by (simp_all add: below_cap_not_reached)
      then show ?thesis
        using h2 True False by (simp add: seen_until_cap_full)
    next
      case b2: True
      then have step: "capture_loop fs max_ads rest ?st2 = (e, st')"
        using Cons.prems(3) True size sv size2 by (simp add: below_cap_not_reached)
      have "e = None \<and> holds_last (capturedAds st') (seen_until_cap max_ads (acc @ [ad]) rest)"
        using Cons.IH[of ?st2 "acc @ [ad]", OF _ _ step] h2 Cons.prems(2) by simp
      then show ?thesis using True by simp
    qed
  qed
qed

lemma capture_batches_holds_last:
  "holds_last (capturedAds st) acc \<Longrightarrow> \<forall>ads\<in>set batches. \<forall>ad\<in>set ads. savable fs ad \<Longrightarrow>
   holds_last (capturedAds (capture_batches fs max_ads batches st))
     (seen_until_cap max_ads acc (concat batches))"
proof (induction batches arbitrary: st acc)
  case Nil
  then show ?case by simp
next
  case (Cons ads batches)
  obtain e st1 where l: "capture_loop fs max_ads ads st = (e, st1)" by (metis surj_pair)
  have a: "\<forall>ad\<in>set ads. savable fs ad" using Cons.prems(2) by simp
  have h1: "holds_last (capturedAds st1) (seen_until_cap max_ads acc ads)"
    using capture_loop_holds_last[OF Cons.prems(1) a l] by simp
  have eq: "(if length ads > 0 then snd (capture_loop fs max_ads ads st) else st) = st1"
    using l by (cases ads) auto
  show ?case
    using Cons.IH[OF h1] Cons.prems(2) eq by (simp add: seen_until_cap_append)
qed

text \<open>
  C8, as the code has it.  Take a run that starts with a fresh map, over records with
  primitive ids whose save goes through.  The records accepted are those seen before
  the cap is reached (\<open>seen_until_cap\<close>; all of them when there is no cap).  At the
  end the map has one entry per id, and its entries are exactly the pairs of an id and
  the last accepted record with that id: a later accepted record has replaced every
  earlier one with its id, which is no longer in the map.
\<close>

theorem session_holds_last_accepted_record:
  assumes "capturedAds st = []"
    and "\<forall>ads\<in>set batches. \<forall>ad\<in>set ads. is_primitive (ad_id ad) \<and> savable fs ad"
  shows "distinct (map fst (capturedAds (capture_batches fs max_ads batches st))) \<and>
         (\<forall>k a. (k, a) \<in> set (capturedAds (capture_batches fs max_ads batches st)) \<longleftrightarrow>
                  last_with_id (seen_until_cap max_ads [] (concat batches)) k = Some a) \<and>
         (uncapped max_ads \<longrightarrow> seen_until_cap max_ads [] (concat batches) = concat batches)"
proof -
  let ?fin = "capturedAds (capture_batches fs max_ads batches st)"
  let ?acc = "seen_until_cap max_ads [] (concat batches)"
  have "holds_last (capturedAds st) []"
    using assms(1) by (simp add: holds_last_def last_with_id_def)
  moreover have "\<forall>ads\<in>set batches. \<forall>ad\<in>set ads. savable fs ad"
    using assms(2) by blast
  ultimately have h: "holds_last ?fin ?acc"
    by (rule capture_batches_holds_last)
  then have d: "distinct (map fst ?fin)" and m: "\<And>k. map_of ?fin k = last_with_id ?acc k"
    by (simp_all add: holds_last_def)
  have "((k, a) \<in> set ?fin) = (last_with_id ?acc k = Some a)" for k a
    using map_of_eq_Some_iff[OF d, of k a] m[of k] by simp
  then show ?thesis
    using d seen_until_cap_uncapped[of max_ads "[]" "concat batches"] by simp
qed

theorem session_holds_last_accepted_record_witness:
  "capturedAds fresh_capture = [] \<and>
   is_primitive (ad_id (record_A 10)) \<and> savable all_writable (record_A 10) \<and>
   is_primitive (ad_id (record_B 11)) \<and> savable all_writable (record_B 11) \<and>
   is_primitive (ad_id (record_A_stopped 12)) \<and> savable all_writable (record_A_stopped 12) \<and>
   ad_id (record_A_stopped 12) = ad_id (record_A 10) \<and>
   uncapped None \<and>
   seen_until_cap None [] (concat [[record_A 10, record_B 11], [record_A_stopped 12]])
     = [record_A 10, record_B 11, record_A_stopped 12] \<and>
   last_with_id [record_A 10, record_B 11, record_A_stopped 12] (JStr ''A'')
     = Some (record_A_stopped 12) \<and>
   (JStr ''A'', record_A_stopped 12)
     \<in> set (capturedAds (capture_batches all_writable None
               [[record_A 10, record_B 11], [record_A_stopped 12]] fresh_capture)) \<and>
   (JStr ''A'', record_A 10)
     \<notin> set (capturedAds (capture_batches all_writable None
               [[record_A 10, record_B 11], [record_A_stopped 12]] fresh_capture)) \<and>
   capturedAds (capture_batches all_writable None
                  [[record_A 10, record_B 11], [record_A_stopped 12]] fresh_capture)
     = [(JStr ''A'', record_A_stopped 12), (JStr ''B'', record_B 11)]"
proof -
  let ?batches = "[[record_A 10, record_B 11], [record_A_stopped 12]]"
  let ?fin = "capturedAds (capture_batches all_writable None ?batches fresh_capture)"
  have h1: "capturedAds fresh_capture = []"
    by (simp add: fresh_capture_def)
  have h2: "\<forall>ads\<in>set ?batches. \<forall>ad\<in>set ads. is_primitive (ad_id ad) \<and> savable all_writable ad"
    by (simp add: sample_defs savable_def)
  have each: "is_primitive (ad_id (record_A 10)) \<and> savable all_writable (record_A 10) \<and>
     is_primitive (ad_id (record_B 11)) \<and> savable all_writable (record_B 11) \<and>
     is_primitive (ad_id (record_A_stopped 12)) \<and> savable all_writable (record_A_stopped 12) \<and>
     ad_id (record_A_stopped 12) = ad_id (record_A 10)"
    by (simp add: sample_defs savable_def)
  have u: "uncapped None"
    by (simp add: uncapped_def)
  note r = session_holds_last_accepted_record[OF h1 h2, of None]
  have seen: "seen_until_cap None [] (concat ?batches) = [record_A 10, record_B 11, record_A_stopped 12]"
    using r u by simp
  have l1: "last_with_id [record_A 10, record_B 11, record_A_stopped 12] (JStr ''A'')
      = Some (record_A_stopped 12)"
    by (simp add: last_with_id_def sample_defs)
  have iff: "((k, a) \<in> set ?fin) = (last_with_id [record_A 10, record_B 11, record_A_stopped 12] k = Some a)"
    for k a
    using r seen by simp
  have in1: "(JStr ''A'', record_A_stopped 12) \<in> set ?fin"
    using iff l1 by simp
  have "record_A 10 \<noteq> record_A_stopped 12"
    by (simp add: sample_defs)
  then have out1: "(JStr ''A'', record_A 10) \<notin> set ?fin"
    using iff l1 by simp
  have fin: "?fin = [(JStr ''A'', record_A_stopped 12), (JStr ''B'', record_B 11)]"
    by (simp add: sample_defs below_cap_def cap_reached_def saveAd_def)
  show ?thesis
    by (intro conjI h1 u seen l1 in1 out1 fin each[THEN conjunct1]
          each[THEN conjunct2, THEN conjunct1]
          each[THEN conjunct2, THEN conjunct2, THEN conjunct1]
          each[THEN conjunct2, THEN conjunct2, THEN conjunct2, THEN conjunct1]
          each[THEN conjunct2, THEN conjunct2, THEN conjunct2, THEN conjunct2, THEN conjunct1]
          each[THEN conjunct2, THEN conjunct2, THEN conjunct2, THEN conjunct2, THEN conjunct2, THEN conjunct1]
          each[THEN conjunct2, THEN conjunct2, THEN conjunct2, THEN conjunct2, THEN conjunct2, THEN conjunct2])
qed

text \<open>
  The claim C8 fails under a cap.  With the cap 1, the record of A fills the map; the
  next response shows A stopped, line 184 refuses it, and the map keeps the earlier
  record: the last record seen for the id is not the one the map holds.
\<close>

theorem cap_keeps_earlier_record:
  "ad_id (record_A_stopped 12) = ad_id (record_A 10) \<and>
   record_A_stopped 12 \<noteq> record_A 10 \<and>
   last_with_id (concat [[record_A 10], [record_A_stopped 12]]) (JStr ''A'')
     = Some (record_A_stopped 12) \<and>
   capturedAds (capture_batches all_writable (Some 1) [[record_A 10], [record_A_stopped 12]]
                  fresh_capture)
     = [(JStr ''A'', record_A 10)]"
  by (simp add: sample_defs last_with_id_def below_cap_def cap_reached_def saveAd_def)

section \<open>Properties of JSON.stringify\<close>

lemma hex_char_inj:
  assumes "a < 16" "b < 16" "hex_char a = hex_char b"
  shows "a = b"
proof -
  have "distinct (map hex_char [0..<16])"
    by code_simp
  then have "inj_on hex_char (set [0..<16])"
    by (simp only: distinct_map)
  then show ?thesis
    using assms by (auto dest: inj_onD)
qed

lemma json_escape_not_quote: "json_escape c @ x \<noteq> CHR 0x22 # y"
  by (auto simp: json_escape_def Let_def)

lemma div_mod_16: "(n::nat) div 16 = m div 16 \<Longrightarrow> n mod 16 = m mod 16 \<Longrightarrow> n = m"
  by (metis div_mult_mod_eq)

lemma hex_pair_inj:
  assumes "(n::nat) < 32" "m < 32"
    and "hex_char (n div 16) = hex_char (m div 16)"
    and "hex_char (n mod 16) = hex_char (m mod 16)"
  shows "n = m"
proof -
  have "n div 16 = m div 16"
    using assms(1,2,3) by (intro hex_char_inj) simp_all
  moreover have "n mod 16 = m mod 16"
    using assms(4) by (intro hex_char_inj) simp_all
  ultimately show ?thesis by (rule div_mod_16)
qed

lemma json_escape_prefix_free:
  assumes "json_escape c @ x = json_escape d @ y"
  shows "c = d \<and> x = y"
proof -
  have inj: "of_char c = (of_char d :: nat) \<Longrightarrow> c = d" by simp
  show ?thesis
    using assms
    by (auto simp: json_escape_def Let_def split: if_splits intro: inj dest: hex_pair_inj)
qed

lemma concat_escape_inj:
  "concat (map json_escape s) @ CHR 0x22 # x = concat (map json_escape t) @ CHR 0x22 # y
   \<Longrightarrow> s = t \<and> x = y"
proof (induction s arbitrary: t)
  case Nil
  then show ?case
    by (cases t) (auto dest: json_escape_not_quote[THEN notE, OF sym])
next
  case (Cons c s)
  show ?case
  proof (cases t)
    case Nil
    with Cons.prems show ?thesis
      using json_escape_not_quote by auto
  next
    case (Cons d t')
    with Cons.prems have "json_escape c @ (concat (map json_escape s) @ CHR 0x22 # x)
        = json_escape d @ (concat (map json_escape t') @ CHR 0x22 # y)" by simp
    then have "c = d" "concat (map json_escape s) @ CHR 0x22 # x = concat (map json_escape t') @ CHR 0x22 # y"
      using json_escape_prefix_free by blast+
    then show ?thesis using Cons.IH Cons by simp
  qed
qed

lemma json_quote_inj: "json_quote s @ x = json_quote t @ y \<Longrightarrow> s = t \<and> x = y"
  using concat_escape_inj[of s x t y] by (simp add: json_quote_def)

lemma json_quote_head: "\<exists>r. json_quote s = CHR 0x22 # r"
  by (simp add: json_quote_def)

lemma join_texts_inj:
  "all_strings xs \<Longrightarrow> all_strings ys \<Longrightarrow>
   join_with '','' (map json_text xs) @ '']'' = join_with '','' (map json_text ys) @ '']'' \<Longrightarrow> xs = ys"
proof (induction xs arbitrary: ys)
  case Nil
  show ?case
  proof (cases ys)
    case Nil
    then show ?thesis by simp
  next
    case (Cons y ys')
    then obtain t where "y = JStr t" using Nil.prems(2) by (cases y) auto
    then show ?thesis using Nil.prems(3) Cons
      by (cases ys') (auto simp: json_quote_def)
  qed
next
  case (Cons x xs)
  obtain s where x: "x = JStr s" using Cons.prems(1) by (cases x) auto
  show ?case
  proof (cases ys)
    case Nil
    then show ?thesis using Cons.prems(3) x
      by (cases xs) (auto simp: json_quote_def)
  next
    case (Cons y ys')
    then obtain t where y: "y = JStr t" using Cons.prems(2) by (cases y) auto
    have split: "join_with '','' (map json_text (JStr u # us)) @ '']''
        = json_quote u @ (if us = [] then '']'' else '','' @ join_with '','' (map json_text us) @ '']'')"
      for u us
      by (cases us) simp_all
    from Cons.prems(3) have eq: "json_quote s @ (if xs = [] then '']'' else '','' @ join_with '','' (map json_text xs) @ '']'')
       = json_quote t @ (if ys' = [] then '']'' else '','' @ join_with '','' (map json_text ys') @ '']'')"
      unfolding x y Cons split .
    then have st: "s = t" and rest: "(if xs = [] then '']'' else '','' @ join_with '','' (map json_text xs) @ '']'')
       = (if ys' = [] then '']'' else '','' @ join_with '','' (map json_text ys') @ '']'')"
      using json_quote_inj by blast+
    have "xs = ys'"
    proof (cases "xs = []")
      case True
      then show ?thesis using rest by (auto split: if_splits)
    next
      case False
      then have "ys' \<noteq> []" using rest by (auto split: if_splits)
      with False rest have "join_with '','' (map json_text xs) @ '']'' = join_with '','' (map json_text ys') @ '']''"
        by simp
      then show ?thesis using Cons.IH Cons.prems(1,2) Cons by simp
    qed
    then show ?thesis using st x y Cons by simp
  qed
qed

lemma stringify_strings_inj:
  assumes "all_strings xs" "all_strings ys"
  shows "JSON_stringify (JArr xs) = JSON_stringify (JArr ys) \<longleftrightarrow> xs = ys"
  using join_texts_inj[OF assms] by (auto simp: JSON_stringify_def)


section \<open>Properties of incrementalSync\<close>

lemma new_or_updated_tracked:
  assumes "tracked previous' = tracked previous" "tracked candidate' = tracked candidate"
  shows "new_or_updated (Some previous') candidate' = new_or_updated (Some previous) candidate"
  using assms by (simp add: new_or_updated_def tracked_def)

lemma new_or_updated_plain:
  assumes "plain_tracked previous" "plain_tracked candidate"
  shows "new_or_updated (Some previous) candidate \<longleftrightarrow>
           (is_active previous \<noteq> is_active candidate \<or>
            start_date previous \<noteq> start_date candidate \<or>
            end_date previous \<noteq> end_date candidate \<or>
            creative_bodies previous \<noteq> creative_bodies candidate)"
proof -
  obtain xs where xs: "creative_bodies previous = JArr xs" "all_strings xs"
    using assms(1) by (cases "creative_bodies previous") (simp_all add: plain_tracked_def)
  obtain ys where ys: "creative_bodies candidate = JArr ys" "all_strings ys"
    using assms(2) by (cases "creative_bodies candidate") (simp_all add: plain_tracked_def)
  show ?thesis
    using assms xs ys stringify_strings_inj[of xs ys]
    by (auto simp: new_or_updated_def plain_tracked_def strict_neq_def)
qed

lemma sync_loop_unchanged:
  assumes "page_id candidate = JStr pageId"
    and "loadAd (sync_files st) pageId (ad_id candidate) = Some previous"
    and "\<not> new_or_updated (Some previous) candidate"
  shows "sync_loop fs pageId (candidate # rest) st = sync_loop fs pageId rest st"
  using assms by simp

text \<open>
  C5, as the code has it.  For a previous record read from its file and a candidate,
  both with tracked fields of the declared shapes (primitive values for \<open>is_active\<close>
  and the dates, a present array of strings for \<open>creative_bodies\<close>), the condition of
  lines 367 to 371 holds exactly when \<open>is_active\<close>, \<open>start_date\<close>, \<open>end_date\<close> or
  \<open>creative_bodies\<close> (as a sequence, in order) differs.  The condition reads no other field: records that agree with them on
  the tracked fields, whatever their \<open>raw_data\<close>, \<open>fetched_at\<close> or \<open>snapshot_url\<close>,
  give the same answer.  When it is false, the loop goes on with the map, the files and
  the log as they were: the record is not saved again.
\<close>

theorem changed_iff_tracked_field_differs:
  "(plain_tracked previous \<and> plain_tracked candidate \<longrightarrow>
      (new_or_updated (Some previous) candidate \<longleftrightarrow>
         (is_active previous \<noteq> is_active candidate \<or>
          start_date previous \<noteq> start_date candidate \<or>
          end_date previous \<noteq> end_date candidate \<or>
          creative_bodies previous \<noteq> creative_bodies candidate))) \<and>
   (tracked previous' = tracked previous \<and> tracked candidate' = tracked candidate \<longrightarrow>
      new_or_updated (Some previous') candidate' = new_or_updated (Some previous) candidate) \<and>
   (page_id candidate = JStr pageId \<and>
    loadAd (sync_files st) pageId (ad_id candidate) = Some previous \<and>
    \<not> new_or_updated (Some previous) candidate \<longrightarrow>
      sync_loop fs pageId (candidate # rest) st = sync_loop fs pageId rest st)"
  using new_or_updated_plain new_or_updated_tracked sync_loop_unchanged by blast

theorem changed_iff_tracked_field_differs_witness:
  "plain_tracked (record_A 10) \<and> plain_tracked (record_A_stopped 12) \<and>
   is_active (record_A 10) \<noteq> is_active (record_A_stopped 12) \<and>
   new_or_updated (Some (record_A 10)) (record_A_stopped 12) \<and>
   tracked ((record_A 20)\<lparr> raw_data := JNull, snapshot_url := JStr ''u'' \<rparr>)
     = tracked (record_A 10) \<and>
   \<not> new_or_updated (Some (record_A 10))
        ((record_A 20)\<lparr> raw_data := JNull, snapshot_url := JStr ''u'' \<rparr>) \<and>
   page_id (record_A 20) = JStr ''P'' \<and>
   loadAd (sync_files synced_A) ''P'' (ad_id (record_A 20)) = Some (record_A 10) \<and>
   sync_loop all_writable ''P'' [record_A 20] synced_A = (None, synced_A)"
proof -
  let ?varied = "(record_A 20)\<lparr> raw_data := JNull, snapshot_url := JStr ''u'' \<rparr>"
  have p1: "plain_tracked (record_A 10)"
    by (simp add: plain_tracked_def record_A_def)
  have p2: "plain_tracked (record_A_stopped 12)"
    by (simp add: plain_tracked_def record_A_def record_A_stopped_def)
  have d: "is_active (record_A 10) \<noteq> is_active (record_A_stopped 12)"
    by (simp add: record_A_stopped_def record_A_def)
  have t1: "tracked ?varied = tracked (record_A 10)"
    by (simp add: tracked_def record_A_def)
  have t2: "tracked (record_A 20) = tracked (record_A 10)"
    by (simp add: tracked_def record_A_def)
  have same: "\<not> new_or_updated (Some (record_A 10)) (record_A 10)"
    using changed_iff_tracked_field_differs[where previous = "record_A 10"
        and candidate = "record_A 10"] p1 by blast
  have pg: "page_id (record_A 20) = JStr ''P''"
    by (simp add: record_A_def)
  have ld: "loadAd (sync_files synced_A) ''P'' (ad_id (record_A 20)) = Some (record_A 10)"
    by (simp add: loadAd_def synced_A_def db_A_def record_A_def)
  have c1: "new_or_updated (Some (record_A 10)) (record_A_stopped 12)"
    using changed_iff_tracked_field_differs[where previous = "record_A 10"
        and candidate = "record_A_stopped 12"] p1 p2 d
    by blast
  have c2: "\<not> new_or_updated (Some (record_A 10)) ?varied"
    using changed_iff_tracked_field_differs[where previous = "record_A 10"
        and candidate = "record_A 10" and previous' = "record_A 10"
        and candidate' = ?varied] t1 same
    by blast
  have c3: "\<not> new_or_updated (Some (record_A 10)) (record_A 20)"
    using changed_iff_tracked_field_differs[where previous = "record_A 10"
        and candidate = "record_A 10" and previous' = "record_A 10"
        and candidate' = "record_A 20"] t2 same
    by blast
  have "sync_loop all_writable ''P'' [record_A 20] synced_A = sync_loop all_writable ''P'' [] synced_A"
    using changed_iff_tracked_field_differs[where previous = "record_A 10"
        and candidate = "record_A 20" and fs = all_writable and pageId = "''P''" and st = synced_A
        and rest = "[]"] pg ld c3
    by blast
  then have c4: "sync_loop all_writable ''P'' [record_A 20] synced_A = (None, synced_A)"
    by simp
  show ?thesis
    using p1 p2 d c1 t1 c2 pg ld c4 by blast
qed

text \<open>
  The claim C5 fails for a tracked field that holds an object.  A response gives
  \<^verbatim>\<open>is_active: {on: true}\<close>; extraction copies it into the record.  Lines 368 to 370
  compare with \<^verbatim>\<open>!==\<close>, which tells the object parsed from the file from the object
  parsed from the response: the record of the next run, equal in every tracked field, is
  taken for modified and saved again.  A file without \<^verbatim>\<open>creative_bodies\<close> is taken
  for modified against a candidate with none, \<^verbatim>\<open>JSON.stringify\<close> giving
  \<^verbatim>\<open>undefined\<close> for the one and \<^verbatim>\<open>[]\<close> for the other.
\<close>

theorem equal_tracked_fields_classified_changed:
  "extractAdData ticking 0 (search_response [edge_of (JArr [raw_flagged])])
     = Inr ([record_flagged 10], 2) \<and>
   loadAd (sync_files synced_flagged) ''P'' (ad_id (record_flagged 20)) = Some (record_flagged 10) \<and>
   tracked (record_flagged 20) = tracked (record_flagged 10) \<and>
   new_or_updated (Some (record_flagged 10)) (record_flagged 20) \<and>
   updatedAds (snd (sync_loop all_writable ''P'' [record_flagged 20] synced_flagged))
     = [(JStr ''F'', record_flagged 20)] \<and>
   sync_log (snd (sync_loop all_writable ''P'' [record_flagged 20] synced_flagged))
     = [(JStr ''F'', False)] \<and>
   creative_bodies record_A_without_bodies = JUndefined \<and>
   creative_bodies (record_A 20) = JArr [] \<and>
   new_or_updated (Some record_A_without_bodies) (record_A 20)"
proof -
  have e: "extractAdData ticking 0 (search_response [edge_of (JArr [raw_flagged])])
      = Inr ([record_flagged 10], 2)"
    by code_simp
  have l: "loadAd (sync_files synced_flagged) ''P'' (ad_id (record_flagged 20)) = Some (record_flagged 10)"
    by (simp add: loadAd_def synced_flagged_def record_flagged_def)
  have t: "tracked (record_flagged 20) = tracked (record_flagged 10)"
    by (simp add: tracked_def record_flagged_def)
  have n: "new_or_updated (Some (record_flagged 10)) (record_flagged 20)"
    by (simp add: new_or_updated_def strict_neq_def record_flagged_def)
  have pg: "page_id (record_flagged 20) = JStr ''P''"
    by (simp add: record_flagged_def)
  have sv: "saveAd all_writable db (record_flagged 20)
      = Inr (db((''P'', ''F.json'') \<mapsto> record_flagged 20))" for db
    by (simp add: saveAd_def all_writable_def record_flagged_def)
  have id: "ad_id (record_flagged 20) = JStr ''F''"
    by (simp add: record_flagged_def)
  have u: "updatedAds (snd (sync_loop all_writable ''P'' [record_flagged 20] synced_flagged))
      = [(JStr ''F'', record_flagged 20)]"
    using l n pg sv id by (simp add: synced_flagged_def)
  have g: "sync_log (snd (sync_loop all_writable ''P'' [record_flagged 20] synced_flagged))
      = [(JStr ''F'', False)]"
    using l n pg sv id by (simp add: synced_flagged_def)
  have b1: "creative_bodies record_A_without_bodies = JUndefined"
    by (simp add: record_A_without_bodies_def)
  have b2: "creative_bodies (record_A 20) = JArr []"
    by (simp add: record_A_def)
  have b3: "new_or_updated (Some record_A_without_bodies) (record_A 20)"
    by (simp add: new_or_updated_def JSON_stringify_def record_A_without_bodies_def record_A_def)
  show ?thesis
    by (intro conjI e l t n u g b1 b2 b3)
qed

text \<open>
  C6, at the failing input.  The database holds the active ad A and metadata with
  \<open>total_ads = 1\<close>; the response shows A inactive.  The run logs A as modified, not
  new (line 374), and line 402 writes \<open>total_ads = 2\<close> for a page that still has one
  ad.
\<close>

theorem modified_record_raises_total_ads:
  "loadPageMetadata meta_P ''P''
     = Some \<lparr> meta_page_id = JStr ''P'', last_synced = 10, total_ads = 1 \<rparr> \<and>
   updates (incrementalSync ticking all_writable ''P'' [Some (search_response [edge_of (JArr [raw_A_stopped])])]
              db_A meta_P 0) = [(JStr ''A'', False)] \<and>
   meta_files (incrementalSync ticking all_writable ''P'' [Some (search_response [edge_of (JArr [raw_A_stopped])])]
                 db_A meta_P 0) ''P''
     = Some \<lparr> meta_page_id = JStr ''P'', last_synced = 12, total_ads = 2 \<rparr>"
  by code_simp

section \<open>Runs under two clocks\<close>

lemma placeholder_unknown_id: "placeholder_like (unknown_id t)"
  by (simp add: placeholder_like_def unknown_id_def)

lemma build_ad_untimed:
  assumes "has_identity r"
    and "build_ad clk1 n1 r = Inr (a1, m1)" and "build_ad clk2 n2 r = Inr (a2, m2)"
  shows "untimed a1 = untimed a2 \<and> \<not> placeholder_like (ad_id a1) \<and> \<not> placeholder_like (ad_id a2)"
proof -
  have nn: "\<not> nullish r"
    using assms(2) by (simp add: build_ad_def read_prop_def split: if_splits)
  show ?thesis
  proof (cases "truthy (get r ''ad_archive_id'')")
    case True
    then have "\<not> placeholder_like (get r ''ad_archive_id'')"
      using assms(1) by (simp add: has_identity_def js_or_def Let_def)
    then show ?thesis
      using assms(2,3) nn True
      by (simp add: build_ad_def read_prop_def Let_def Date_now_def untimed_def) auto
  next
    case False
    then have "truthy (get r ''id'') \<and> \<not> placeholder_like (get r ''id'')"
      using assms(1) by (simp add: has_identity_def js_or_def Let_def)
    then show ?thesis
      using assms(2,3) nn False
      by (simp add: build_ad_def read_prop_def Let_def Date_now_def untimed_def) auto
  qed
qed

lemma for_collated_untimed:
  assumes "list_all (\<lambda>r. \<not> truthy r \<or> has_identity r) xs"
    and "map untimed ads1 = map untimed ads2"
    and "for_collated clk1 xs (ads1, n1) = (e1, ads1', n1')"
    and "for_collated clk2 xs (ads2, n2) = (e2, ads2', n2')"
  shows "e1 = e2 \<and> map untimed ads1' = map untimed ads2'"
  using assms
proof (induction xs arbitrary: ads1 ads2 n1 n2)
  case Nil
  then show ?case by simp
next
  case (Cons x xs)
  show ?case
  proof (cases "truthy x")
    case False
    with Cons show ?thesis by simp
  next
    case True
    then have hi: "has_identity x" using Cons.prems(1) by simp
    obtain a1 m1 where b1: "build_ad clk1 n1 x = Inr (a1, m1)"
      using build_ad_truthy_ok[OF True] by blast
    obtain a2 m2 where b2: "build_ad clk2 n2 x = Inr (a2, m2)"
      using build_ad_truthy_ok[OF True] by blast
    note u = build_ad_untimed[OF hi b1 b2]
    have t1: "truthy (ad_id a1)" and t2: "truthy (ad_id a2)"
      using build_ad_identity b1 b2 by blast+
    have ne1: "ad_id a1 \<noteq> unknown_id t" and ne2: "ad_id a2 \<noteq> unknown_id t" for t
      using u placeholder_unknown_id by metis+
    have s1: "for_collated clk1 xs (ads1 @ [a1], Suc m1) = (e1, ads1', n1')"
      using Cons.prems(3) True b1 t1 ne1 by (simp add: Date_now_def)
    have s2: "for_collated clk2 xs (ads2 @ [a2], Suc m2) = (e2, ads2', n2')"
      using Cons.prems(4) True b2 t2 ne2 by (simp add: Date_now_def)
    have "map untimed (ads1 @ [a1]) = map untimed (ads2 @ [a2])"
      using Cons.prems(2) u by simp
    then show ?thesis
      using Cons.IH[OF _ _ s1 s2] Cons.prems(1) by simp
  qed
qed

lemma for_edges_untimed:
  assumes "list_all (\<lambda>edge. list_all (\<lambda>r. \<not> truthy r \<or> has_identity r) (results_of_edge edge)) es"
    and "map untimed ads1 = map untimed ads2"
    and "for_edges clk1 es (ads1, n1) = (e1, ads1', n1')"
    and "for_edges clk2 es (ads2, n2) = (e2, ads2', n2')"
  shows "e1 = e2 \<and> map untimed ads1' = map untimed ads2'"
  using assms
proof (induction es arbitrary: ads1 ads2 n1 n2)
  case Nil
  then show ?case by simp
next
  case (Cons x es)
  let ?node = "opt x ''node''"
  show ?case
  proof (cases "truthy ?node")
    case False
    with Cons show ?thesis by simp
  next
    case True
    then have rp: "read_prop ?node ''collated_results'' = Inr (get ?node ''collated_results'')"
      using truthy_not_nullish by (simp add: read_prop_def)
    show ?thesis
    proof (cases "iterate (js_or (get ?node ''collated_results'') (JArr []))")
      case (Inl err)
      with True rp Cons.prems show ?thesis by simp
    next
      case (Inr items)
      then have ri: "results_of_edge x = items"
        using True by (simp add: results_of_edge_def)
      then have ids: "list_all (\<lambda>r. \<not> truthy r \<or> has_identity r) items"
        using Cons.prems(1) by simp
      obtain f1 b1 k1 where c1: "for_collated clk1 items (ads1, n1) = (f1, b1, k1)"
        by (metis prod_cases3)
      obtain f2 b2 k2 where c2: "for_collated clk2 items (ads2, n2) = (f2, b2, k2)"
        by (metis prod_cases3)
      note u = for_collated_untimed[OF ids Cons.prems(2) c1 c2]
      show ?thesis
      proof (cases f1)
        case None
        then have "f2 = None" using u by simp
        with None True rp Inr c1 c2 Cons.prems(3,4)
        have "for_edges clk1 es (b1, k1) = (e1, ads1', n1')" "for_edges clk2 es (b2, k2) = (e2, ads2', n2')"
          by simp_all
        then show ?thesis using Cons.IH[of b1 b2 k1 k2] u Cons.prems(1) by simp
      next
        case (Some err)
        then have f2: "f2 = Some err" using u by simp
        have r1: "e1 = Some err \<and> ads1' = b1"
          using Some True rp Inr c1 Cons.prems(3) by simp
        have r2: "e2 = Some err \<and> ads2' = b2"
          using f2 True rp Inr c2 Cons.prems(4) by simp
        show ?thesis using r1 r2 u by simp
      qed
    qed
  qed
qed

lemma extractAdData_untimed:
  assumes "identified response"
    and "extractAdData clk1 n1 response = Inr (ads1, n1')"
    and "extractAdData clk2 n2 response = Inr (ads2, n2')"
  shows "map untimed ads1 = map untimed ads2"
proof (cases "walk response anchor_path")
  case (JArr es)
  then have edges: "opt (opt (opt (opt response ''data'') ''ad_library_main'') ''search_results_connection'') ''edges'' = JArr es"
    by (simp add: walk_anchor)
  then have td: "truthy (opt response ''data'')"
    using opt_falsy by fastforce
  have ids: "list_all (\<lambda>edge. list_all (\<lambda>r. \<not> truthy r \<or> has_identity r) (results_of_edge edge)) es"
    using assms(1) JArr by (simp add: identified_def edges_of_def)
  obtain f1 b1 k1 where c1: "for_edges clk1 es ([], n1) = (f1, b1, k1)" by (metis prod_cases3)
  obtain f2 b2 k2 where c2: "for_edges clk2 es ([], n2) = (f2, b2, k2)" by (metis prod_cases3)
  have "ads1 = b1" using assms(2) td edges c1 by (auto simp: extractAdData_def split: option.splits)
  moreover have "ads2 = b2" using assms(3) td edges c2 by (auto simp: extractAdData_def split: option.splits)
  ultimately show ?thesis using for_edges_untimed[OF ids _ c1 c2] by simp
qed (use assms extractAdData_missing_anchor[of response] in \<open>simp_all add: missing_anchor_path_def\<close>)

lemma untimed_fields [simp]:
  "ad_id (untimed a) = ad_id a" "page_id (untimed a) = page_id a"
  "is_active (untimed a) = is_active a" "start_date (untimed a) = start_date a"
  "end_date (untimed a) = end_date a" "creative_bodies (untimed a) = creative_bodies a"
  by (simp_all add: untimed_def)

lemma Map_set_untimed:
  "untimed_session (Map_set k a m) = Map_set k (untimed a) (untimed_session m)"
  by (induction m) (auto simp: untimed_session_def)

lemma length_untimed_session [simp]: "length (untimed_session m) = length m"
  by (simp add: untimed_session_def)

lemma saveAd_untimed:
  "saveAd fs (untimed_store db) (untimed a) =
     (case saveAd fs db a of Inl e \<Rightarrow> Inl e | Inr db' \<Rightarrow> Inr (untimed_store db'))"
  by (cases "page_id a") (auto simp: saveAd_def untimed_store_def fun_eq_iff)

lemma untimed_capture_sel:
  "capturedAds (untimed_capture st) = untimed_session (capturedAds st)"
  "cap_files (untimed_capture st) = untimed_store (cap_files st)"
  by (simp_all add: untimed_capture_def)

lemma untimed_capture_step:
  "untimed_capture (st\<lparr> capturedAds := Map_set (ad_id ad) ad (capturedAds st) \<rparr>)
   = (untimed_capture st)\<lparr> capturedAds := Map_set (ad_id ad) (untimed ad) (untimed_session (capturedAds st)) \<rparr>"
  "untimed_capture (st\<lparr> cap_files := db \<rparr>) = (untimed_capture st)\<lparr> cap_files := untimed_store db \<rparr>"
  by (simp_all add: untimed_capture_def Map_set_untimed)

lemma capture_loop_untimed:
  "capture_loop fs mx (map untimed ads) (untimed_capture st) =
     (case capture_loop fs mx ads st of (e, st') \<Rightarrow> (e, untimed_capture st'))"
proof (induction ads arbitrary: st)
  case Nil
  then show ?case by simp
next
  case (Cons ad rest)
  let ?st1 = "st\<lparr> capturedAds := Map_set (ad_id ad) ad (capturedAds st) \<rparr>"
  have len: "length (Map_set k (untimed a) (untimed_session m)) = length (Map_set k a m)" for k a m
    by (metis Map_set_untimed length_untimed_session)
  show ?case
  proof (cases "saveAd fs (cap_files st) ad")
    case (Inl err)
    then have "saveAd fs (untimed_store (cap_files st)) (untimed ad) = Inl err"
      by (simp add: saveAd_untimed)
    with Inl Cons.IH[of st] show ?thesis
      by (simp add: Let_def untimed_capture_sel untimed_capture_step)
  next
    case (Inr db)
    then have "saveAd fs (untimed_store (cap_files st)) (untimed ad) = Inr (untimed_store db)"
      by (simp add: saveAd_untimed)
    with Inr Cons.IH[of st] Cons.IH[of "?st1\<lparr> cap_files := db \<rparr>"] show ?thesis
      by (simp add: Let_def untimed_capture_sel untimed_capture_step len)
  qed
qed


lemma capture_loop_related:
  assumes "map untimed ads1 = map untimed ads2" and "untimed_capture st1 = untimed_capture st2"
  shows "fst (capture_loop fs mx ads1 st1) = fst (capture_loop fs mx ads2 st2) \<and>
         untimed_capture (snd (capture_loop fs mx ads1 st1)) = untimed_capture (snd (capture_loop fs mx ads2 st2))"
proof -
  have "(case capture_loop fs mx ads1 st1 of (e, st') \<Rightarrow> (e, untimed_capture st'))
      = (case capture_loop fs mx ads2 st2 of (e, st') \<Rightarrow> (e, untimed_capture st'))"
    using capture_loop_untimed[of fs mx ads1 st1] capture_loop_untimed[of fs mx ads2 st2] assms by simp
  then show ?thesis by (simp add: case_prod_beta)
qed

lemma capture_response_related:
  assumes "identified_body body" and "untimed_capture st1 = untimed_capture st2"
  shows "untimed_capture (fst (capture_response clk1 fs mx body (st1, n1)))
       = untimed_capture (fst (capture_response clk2 fs mx body (st2, n2)))"
proof (cases body)
  case None
  then show ?thesis using assms(2) by (simp add: capture_response_def)
next
  case (Some json)
  obtain ads1 k1 where e1: "extractAdData clk1 n1 json = Inr (ads1, k1)"
    using extractAdData_returns by blast
  obtain ads2 k2 where e2: "extractAdData clk2 n2 json = Inr (ads2, k2)"
    using extractAdData_returns by blast
  have u: "map untimed ads1 = map untimed ads2"
    using extractAdData_untimed[OF _ e1 e2] assms(1) Some by simp
  then have len: "length ads1 = length ads2" by (metis length_map)
  then have emp: "ads1 = [] \<longleftrightarrow> ads2 = []" by auto
  show ?thesis
    using Some e1 e2 emp assms(2) capture_loop_related[OF u assms(2), of fs mx]
    by (auto simp: capture_response_def capture_batch_def)
qed

lemma capture_responses_related:
  assumes "list_all identified_body bodies" and "untimed_capture st1 = untimed_capture st2"
  shows "untimed_capture (fst (capture_responses clk1 fs mx bodies (st1, n1)))
       = untimed_capture (fst (capture_responses clk2 fs mx bodies (st2, n2)))"
  using assms
proof (induction bodies arbitrary: st1 st2 n1 n2)
  case Nil
  then show ?case by simp
next
  case (Cons body bodies)
  obtain s1 k1 where r1: "capture_response clk1 fs mx body (st1, n1) = (s1, k1)" by (metis surj_pair)
  obtain s2 k2 where r2: "capture_response clk2 fs mx body (st2, n2) = (s2, k2)" by (metis surj_pair)
  have "untimed_capture s1 = untimed_capture s2"
    using capture_response_related[of body st1 st2 clk1 fs mx n1 clk2 n2] Cons.prems r1 r2 by simp
  then show ?case
    using Cons.IH[of s1 s2 k1 k2] Cons.prems(1) r1 r2 by simp
qed

lemma untimed_session_page_ids:
  "map (\<lambda>ad. page_id ad) (map snd (untimed_session m)) = map (\<lambda>ad. page_id ad) (map snd m)"
  by (simp add: untimed_session_def comp_def)

lemma untimed_session_count:
  "length (filter (\<lambda>ad. page_id ad = p) (map snd (untimed_session m)))
     = length (filter (\<lambda>ad. page_id ad = p) (map snd m))"
  by (induction m) (simp_all add: untimed_session_def)

lemma savePageMetadata_related:
  assumes "untimed_metas ms1 = untimed_metas ms2"
  shows "(case savePageMetadata fs ms1 \<lparr> meta_page_id = p, last_synced = t1, total_ads = c \<rparr> of
            Inl e \<Rightarrow> Inl e | Inr ms \<Rightarrow> Inr (untimed_metas ms))
       = (case savePageMetadata fs ms2 \<lparr> meta_page_id = p, last_synced = t2, total_ads = c \<rparr> of
            Inl e \<Rightarrow> Inl e | Inr ms \<Rightarrow> Inr (untimed_metas ms))"
proof (cases p)
  case (JStr dir)
  have "untimed_metas ms1 d = untimed_metas ms2 d" for d using assms by simp
  then show ?thesis
    using JStr by (auto simp: savePageMetadata_def untimed_metas_def fun_eq_iff)
qed (simp_all add: savePageMetadata_def)

lemma save_metadata_related:
  assumes "untimed_session m1 = untimed_session m2" and "untimed_metas ms1 = untimed_metas ms2"
  shows "fst (save_metadata clk1 fs m1 pageIds (ms1, n1)) = fst (save_metadata clk2 fs m2 pageIds (ms2, n2)) \<and>
         untimed_metas (fst (snd (save_metadata clk1 fs m1 pageIds (ms1, n1))))
           = untimed_metas (fst (snd (save_metadata clk2 fs m2 pageIds (ms2, n2))))"
  using assms(2)
proof (induction pageIds arbitrary: ms1 ms2 n1 n2)
  case Nil
  then show ?case by simp
next
  case (Cons p pageIds)
  have cnt: "length (filter (\<lambda>ad. page_id ad = p) (map snd m1))
           = length (filter (\<lambda>ad. page_id ad = p) (map snd m2))"
    using untimed_session_count[of p m1] untimed_session_count[of p m2] assms(1) by simp
  let ?c = "length (filter (\<lambda>ad. page_id ad = p) (map snd m1))"
  note rel = savePageMetadata_related[OF Cons.prems, of fs p "clk1 n1" ?c "clk2 n2"]
  show ?case
  proof (cases "savePageMetadata fs ms1 \<lparr> meta_page_id = p, last_synced = clk1 n1, total_ads = ?c \<rparr>")
    case (Inl err)
    then have "savePageMetadata fs ms2 \<lparr> meta_page_id = p, last_synced = clk2 n2, total_ads = ?c \<rparr> = Inl err"
      using rel by (auto split: sum.splits)
    with Inl cnt Cons.prems show ?thesis by (simp add: Date_now_def Let_def)
  next
    case (Inr ms1')
    then obtain ms2' where
      s2: "savePageMetadata fs ms2 \<lparr> meta_page_id = p, last_synced = clk2 n2, total_ads = ?c \<rparr> = Inr ms2'"
      and u: "untimed_metas ms1' = untimed_metas ms2'"
      using rel by (auto split: sum.splits)
    show ?thesis
      using Inr s2 cnt Cons.IH[OF u] by (simp add: Date_now_def Let_def)
  qed
qed

lemma initialSync_timeless:
  assumes "list_all identified_body bodies"
  shows "timeless (initialSync clk1 fs mx bodies db ms n1) = timeless (initialSync clk2 fs mx bodies db ms n2)"
proof -
  let ?init = "\<lparr> capturedAds = [], cap_files = db \<rparr>"
  obtain s1 k1 where r1: "capture_responses clk1 fs mx bodies (?init, n1) = (s1, k1)" by (metis surj_pair)
  obtain s2 k2 where r2: "capture_responses clk2 fs mx bodies (?init, n2) = (s2, k2)" by (metis surj_pair)
  have u: "untimed_capture s1 = untimed_capture s2"
    using capture_responses_related[OF assms refl, of clk1 fs mx ?init n1 clk2 n2] r1 r2 by simp
  then have us: "untimed_session (capturedAds s1) = untimed_session (capturedAds s2)"
    and uf: "untimed_store (cap_files s1) = untimed_store (cap_files s2)"
    by (simp_all add: untimed_capture_def)
  have pids: "Set_of (map (\<lambda>ad. page_id ad) (map snd (capturedAds s1)))
            = Set_of (map (\<lambda>ad. page_id ad) (map snd (capturedAds s2)))"
    using untimed_session_page_ids[of "capturedAds s1"] untimed_session_page_ids[of "capturedAds s2"] us
    by simp
  let ?pids = "Set_of (map (\<lambda>ad. page_id ad) (map snd (capturedAds s1)))"
  obtain e1 m1 j1 where f1: "save_metadata clk1 fs (capturedAds s1) ?pids (ms, k1) = (e1, m1, j1)"
    by (metis prod_cases3)
  obtain e2 m2 j2 where f2: "save_metadata clk2 fs (capturedAds s2) ?pids (ms, k2) = (e2, m2, j2)"
    by (metis prod_cases3)
  have "e1 = e2 \<and> untimed_metas m1 = untimed_metas m2"
    using save_metadata_related[OF us refl, of clk1 fs ?pids ms k1 clk2 k2] f1 f2 by simp
  then show ?thesis
    using r1 r2 f1 f2 pids us uf by (simp add: initialSync_def timeless_def Let_def)
qed


lemma new_or_updated_untimed:
  "new_or_updated (map_option untimed existing) (untimed ad) = new_or_updated existing ad"
  by (cases existing) (simp_all add: new_or_updated_def)

lemma loadAd_untimed:
  "loadAd (untimed_store db) pageId k = map_option untimed (loadAd db pageId k)"
  by (simp add: loadAd_def untimed_store_def)

lemma untimed_sync_sel:
  "updatedAds (untimed_sync st) = untimed_session (updatedAds st)"
  "sync_files (untimed_sync st) = untimed_store (sync_files st)"
  "sync_log (untimed_sync st) = sync_log st"
  by (simp_all add: untimed_sync_def)

lemma untimed_sync_step:
  "untimed_sync (st\<lparr> updatedAds := Map_set (ad_id ad) ad (updatedAds st) \<rparr>)
   = (untimed_sync st)\<lparr> updatedAds := Map_set (ad_id ad) (untimed ad) (untimed_session (updatedAds st)) \<rparr>"
  "untimed_sync (st\<lparr> sync_files := db, sync_log := l \<rparr>)
   = (untimed_sync st)\<lparr> sync_files := untimed_store db, sync_log := l \<rparr>"
  by (simp_all add: untimed_sync_def Map_set_untimed)

lemma sync_loop_untimed:
  "sync_loop fs pageId (map untimed ads) (untimed_sync st) =
     (case sync_loop fs pageId ads st of (e, st') \<Rightarrow> (e, untimed_sync st'))"
proof (induction ads arbitrary: st)
  case Nil
  then show ?case by simp
next
  case (Cons ad rest)
  let ?ex = "loadAd (sync_files st) pageId (ad_id ad)"
  let ?st1 = "st\<lparr> updatedAds := Map_set (ad_id ad) ad (updatedAds st) \<rparr>"
  have none: "(map_option untimed ?ex = None) = (?ex = None)" by simp
  show ?case
  proof (cases "saveAd fs (sync_files st) ad")
    case (Inl err)
    then have "saveAd fs (untimed_store (sync_files st)) (untimed ad) = Inl err"
      by (simp add: saveAd_untimed)
    with Inl Cons.IH[of st] show ?thesis
      by (simp add: Let_def untimed_sync_sel untimed_sync_step loadAd_untimed new_or_updated_untimed)
  next
    case (Inr db)
    then have "saveAd fs (untimed_store (sync_files st)) (untimed ad) = Inr (untimed_store db)"
      by (simp add: saveAd_untimed)
    with Inr Cons.IH[of st]
      Cons.IH[of "?st1\<lparr> sync_files := db, sync_log := sync_log ?st1 @ [(ad_id ad, ?ex = None)] \<rparr>"]
    show ?thesis
      by (simp add: Let_def untimed_sync_sel untimed_sync_step loadAd_untimed new_or_updated_untimed none)
  qed
qed

lemma sync_loop_related:
  assumes "map untimed ads1 = map untimed ads2" and "untimed_sync st1 = untimed_sync st2"
  shows "untimed_sync (snd (sync_loop fs pageId ads1 st1)) = untimed_sync (snd (sync_loop fs pageId ads2 st2))"
proof -
  have "(case sync_loop fs pageId ads1 st1 of (e, st') \<Rightarrow> (e, untimed_sync st'))
      = (case sync_loop fs pageId ads2 st2 of (e, st') \<Rightarrow> (e, untimed_sync st'))"
    using sync_loop_untimed[of fs pageId ads1 st1] sync_loop_untimed[of fs pageId ads2 st2] assms by simp
  then show ?thesis by (simp add: case_prod_beta)
qed

lemma sync_response_related:
  assumes "identified_body body" and "untimed_sync st1 = untimed_sync st2"
  shows "untimed_sync (fst (sync_response clk1 fs pageId body (st1, n1)))
       = untimed_sync (fst (sync_response clk2 fs pageId body (st2, n2)))"
proof (cases body)
  case None
  then show ?thesis using assms(2) by (simp add: sync_response_def)
next
  case (Some json)
  obtain ads1 k1 where e1: "extractAdData clk1 n1 json = Inr (ads1, k1)"
    using extractAdData_returns by blast
  obtain ads2 k2 where e2: "extractAdData clk2 n2 json = Inr (ads2, k2)"
    using extractAdData_returns by blast
  have u: "map untimed ads1 = map untimed ads2"
    using extractAdData_untimed[OF _ e1 e2] assms(1) Some by simp
  show ?thesis
    using Some e1 e2 sync_loop_related[OF u assms(2), of fs pageId]
    by (simp add: sync_response_def)
qed

lemma sync_responses_related:
  assumes "list_all identified_body bodies" and "untimed_sync st1 = untimed_sync st2"
  shows "untimed_sync (fst (sync_responses clk1 fs pageId bodies (st1, n1)))
       = untimed_sync (fst (sync_responses clk2 fs pageId bodies (st2, n2)))"
  using assms
proof (induction bodies arbitrary: st1 st2 n1 n2)
  case Nil
  then show ?case by simp
next
  case (Cons body bodies)
  obtain s1 k1 where r1: "sync_response clk1 fs pageId body (st1, n1) = (s1, k1)" by (metis surj_pair)
  obtain s2 k2 where r2: "sync_response clk2 fs pageId body (st2, n2) = (s2, k2)" by (metis surj_pair)
  have "untimed_sync s1 = untimed_sync s2"
    using sync_response_related[of body st1 st2 clk1 fs pageId n1 clk2 n2] Cons.prems r1 r2 by simp
  then show ?case
    using Cons.IH[of s1 s2 k1 k2] Cons.prems(1) r1 r2 by simp
qed

lemma incrementalSync_timeless:
  assumes "list_all identified_body bodies"
  shows "timeless (incrementalSync clk1 fs pageId bodies db ms n1)
           = timeless (incrementalSync clk2 fs pageId bodies db ms n2) \<and>
         updates (incrementalSync clk1 fs pageId bodies db ms n1)
           = updates (incrementalSync clk2 fs pageId bodies db ms n2)"
proof -
  let ?init = "\<lparr> updatedAds = [], sync_files = db, sync_log = [] \<rparr>"
  obtain s1 k1 where r1: "sync_responses clk1 fs pageId bodies (?init, n1) = (s1, k1)" by (metis surj_pair)
  obtain s2 k2 where r2: "sync_responses clk2 fs pageId bodies (?init, n2) = (s2, k2)" by (metis surj_pair)
  have u: "untimed_sync s1 = untimed_sync s2"
    using sync_responses_related[OF assms refl, of clk1 fs pageId ?init n1 clk2 n2] r1 r2 by simp
  then have us: "untimed_session (updatedAds s1) = untimed_session (updatedAds s2)"
    and uf: "untimed_store (sync_files s1) = untimed_store (sync_files s2)"
    and ul: "sync_log s1 = sync_log s2"
    by (simp_all add: untimed_sync_def)
  have len: "length (updatedAds s1) = length (updatedAds s2)"
    using us by (metis length_untimed_session)
  show ?thesis
    using r1 r2 us uf ul len
    by (simp add: incrementalSync_def timeless_def Let_def savePageMetadata_def updated_metadata_def
          untimed_metas_def Date_now_def fun_eq_iff)
qed

lemma extracted_related:
  assumes "list_all identified_body bodies"
  shows "map (map untimed) (extracted clk1 bodies n1) = map (map untimed) (extracted clk2 bodies n2)"
  using assms
proof (induction bodies arbitrary: n1 n2)
  case Nil
  then show ?case by simp
next
  case (Cons body bodies)
  show ?case
  proof (cases body)
    case None
    then show ?thesis using Cons by simp
  next
    case (Some json)
    obtain ads1 k1 where e1: "extractAdData clk1 n1 json = Inr (ads1, k1)"
      using extractAdData_returns by blast
    obtain ads2 k2 where e2: "extractAdData clk2 n2 json = Inr (ads2, k2)"
      using extractAdData_returns by blast
    have "map untimed ads1 = map untimed ads2"
      using extractAdData_untimed[OF _ e1 e2] Cons.prems Some by simp
    then show ?thesis
      using Some e1 e2 Cons.IH[of k1 k2] Cons.prems by simp
  qed
qed

text \<open>
  C9, as the code has it.  Take two runs, under any two clocks, over the same bodies,
  handled one after the other, from the same ad files and metadata files and on the
  same file system, where every response is identified.  Then the extracted records agree up to \<open>fetched_at\<close>, and
  for \<^verbatim>\<open>initialSync\<close> as for \<^verbatim>\<open>incrementalSync\<close> the error raised, the session
  map, the ad files (both up to \<open>fetched_at\<close>) and the metadata files (up to
  \<open>last_synced\<close>) agree, as does the log of what was new and what was modified.
\<close>

theorem runs_agree_up_to_timestamps:
  assumes "list_all identified_body bodies"
  shows "map (map untimed) (extracted clk1 bodies n1) = map (map untimed) (extracted clk2 bodies n2) \<and>
         timeless (initialSync clk1 fs max_ads bodies db ms n1)
           = timeless (initialSync clk2 fs max_ads bodies db ms n2) \<and>
         timeless (incrementalSync clk1 fs pageId bodies db ms n1)
           = timeless (incrementalSync clk2 fs pageId bodies db ms n2) \<and>
         updates (incrementalSync clk1 fs pageId bodies db ms n1)
           = updates (incrementalSync clk2 fs pageId bodies db ms n2)"
proof (intro conjI)
  show "map (map untimed) (extracted clk1 bodies n1) = map (map untimed) (extracted clk2 bodies n2)"
    by (rule extracted_related[OF assms])
  show "timeless (initialSync clk1 fs max_ads bodies db ms n1)
      = timeless (initialSync clk2 fs max_ads bodies db ms n2)"
    by (rule initialSync_timeless[OF assms])
  show "timeless (incrementalSync clk1 fs pageId bodies db ms n1)
      = timeless (incrementalSync clk2 fs pageId bodies db ms n2)"
    by (rule conjunct1[OF incrementalSync_timeless[OF assms]])
  show "updates (incrementalSync clk1 fs pageId bodies db ms n1)
      = updates (incrementalSync clk2 fs pageId bodies db ms n2)"
    by (rule conjunct2[OF incrementalSync_timeless[OF assms]])
qed

theorem runs_agree_up_to_timestamps_witness:
  "list_all identified_body bodies_A \<and>
   extracted ticking bodies_A 0 = [[record_A 10]] \<and>
   extracted later bodies_A 0 = [[record_A 50]] \<and>
   untimed (record_A 10) = untimed (record_A 50) \<and>
   timeless (initialSync ticking all_writable (Some 50) bodies_A db_A meta_P 0)
     = timeless (initialSync later all_writable (Some 50) bodies_A db_A meta_P 0) \<and>
   timeless (incrementalSync ticking all_writable ''P'' bodies_A db_A meta_P 0)
     = timeless (incrementalSync later all_writable ''P'' bodies_A db_A meta_P 0)"
proof -
  have h: "list_all identified_body bodies_A"
    by code_simp
  have e1: "extracted ticking bodies_A 0 = [[record_A 10]]"
    by code_simp
  have e2: "extracted later bodies_A 0 = [[record_A 50]]"
    by code_simp
  note r = runs_agree_up_to_timestamps[OF h, of ticking 0 later 0 all_writable "Some 50" db_A meta_P "''P''"]
  from r have "map (map untimed) (extracted ticking bodies_A 0)
      = map (map untimed) (extracted later bodies_A 0)"
    by (rule conjunct1)
  then have "map (map untimed) [[record_A 10]] = map (map untimed) [[record_A 50]]"
    by (simp only: e1 e2)
  then have u: "untimed (record_A 10) = untimed (record_A 50)"
    by simp
  from r have t1: "timeless (initialSync ticking all_writable (Some 50) bodies_A db_A meta_P 0)
     = timeless (initialSync later all_writable (Some 50) bodies_A db_A meta_P 0)"
    by (rule conjunct1[OF conjunct2])
  from r have t2: "timeless (incrementalSync ticking all_writable ''P'' bodies_A db_A meta_P 0)
     = timeless (incrementalSync later all_writable ''P'' bodies_A db_A meta_P 0)"
    by (rule conjunct1[OF conjunct2[OF conjunct2]])
  show ?thesis
    by (intro conjI h e1 e2 u t1 t2)
qed

text \<open>
  The claim C9 fails: the clock is written into the output.  The same response, from the
  same empty database, gives under two clocks records that differ in \<open>fetched_at\<close>, in
  the session map as in the ad file, and metadata that differ in \<open>last_synced\<close>.
\<close>

theorem clock_is_written_into_the_output:
  "extracted ticking bodies_A 0 = [[record_A 10]] \<and>
   extracted later bodies_A 0 = [[record_A 50]] \<and>
   record_A 10 \<noteq> record_A 50 \<and>
   final_session (initialSync ticking all_writable None bodies_A Map.empty Map.empty 0)
     = [(JStr ''A'', record_A 10)] \<and>
   final_session (initialSync later all_writable None bodies_A Map.empty Map.empty 0)
     = [(JStr ''A'', record_A 50)] \<and>
   ad_files (initialSync ticking all_writable None bodies_A Map.empty Map.empty 0) (''P'', ''A.json'')
     = Some (record_A 10) \<and>
   ad_files (initialSync later all_writable None bodies_A Map.empty Map.empty 0) (''P'', ''A.json'')
     = Some (record_A 50) \<and>
   meta_files (initialSync ticking all_writable None bodies_A Map.empty Map.empty 0) ''P''
     = Some \<lparr> meta_page_id = JStr ''P'', last_synced = 12, total_ads = 1 \<rparr> \<and>
   meta_files (initialSync later all_writable None bodies_A Map.empty Map.empty 0) ''P''
     = Some \<lparr> meta_page_id = JStr ''P'', last_synced = 52, total_ads = 1 \<rparr>"
  by code_simp

end
